theory Spec2Isabelle
  imports Complex_Main
begin

section \<open>JavaScript strings\<close>

text \<open>
  A JavaScript string is a sequence of UTF-16 code units; \<open>length\<close>, the regular
  expressions below (none has the \<open>u\<close> flag) and \<open>trim\<close> all work on code units.
  A code unit is modelled as a natural number, a string as a list of them; \<open>js\<close>
  turns an ASCII literal into such a list.
\<close>

type_synonym jschar = nat
type_synonym jsstring = "jschar list"

definition js :: "string \<Rightarrow> jsstring" where
  "js s = map of_char s"

text \<open>The character class \<open>[A-Z0-9]\<close>.\<close>

definition is_id_char :: "jschar \<Rightarrow> bool" where
  "is_id_char c \<longleftrightarrow> (65 \<le> c \<and> c \<le> 90) \<or> (48 \<le> c \<and> c \<le> 57)"

text \<open>The character class \<open>[a-z0-9_+-]\<close>.\<close>

definition is_emoji_char :: "jschar \<Rightarrow> bool" where
  "is_emoji_char c \<longleftrightarrow>
     (97 \<le> c \<and> c \<le> 122) \<or> (48 \<le> c \<and> c \<le> 57) \<or> c = 95 \<or> c = 43 \<or> c = 45"

text \<open>
  The class \<open>\s\<close> of ECMAScript: white space (TAB, VT, FF, SP, NBSP, ZWNBSP and the
  Unicode space separators) and the line terminators (LF, CR, LS, PS).
  \<open>String.prototype.trim\<close> strips exactly the same code units.
\<close>

definition is_space :: "jschar \<Rightarrow> bool" where
  "is_space c \<longleftrightarrow>
     (9 \<le> c \<and> c \<le> 13) \<or> c = 32 \<or> c = 160 \<or> c = 5760 \<or> (8192 \<le> c \<and> c \<le> 8202) \<or>
     c = 8232 \<or> c = 8233 \<or> c = 8239 \<or> c = 8287 \<or> c = 12288 \<or> c = 65279"

text \<open>The class \<open>[^>]\<close>; a negated class also matches line terminators.\<close>

definition not_gt :: "jschar \<Rightarrow> bool" where
  "not_gt c \<longleftrightarrow> c \<noteq> 62"

definition trim :: "jsstring \<Rightarrow> jsstring" where
  "trim s = rev (dropWhile is_space (rev (dropWhile is_space s)))"

section \<open>Global regular-expression replacement\<close>

text \<open>
  A pattern is given by its matcher at one position: applied to the rest of the string
  from that position, it returns the length of the match there and the text of capture
  group 1 (empty when the pattern has no group), or \<open>None\<close> when the pattern does not
  match at that position.

  \<open>s.replace(/p/g, r)\<close> scans from the left: at a position with a match the
  replacement is emitted and the scan goes on after the match (one code unit further,
  copying it, when the match is empty); at a position without a match the code unit is
  copied.
\<close>

type_synonym matcher = "jsstring \<Rightarrow> (nat \<times> jsstring) option"

function replace_all :: "matcher \<Rightarrow> (jsstring \<Rightarrow> jsstring) \<Rightarrow> jsstring \<Rightarrow> jsstring" where
  "replace_all m r [] = (case m [] of None \<Rightarrow> [] | Some (n, cap) \<Rightarrow> r cap)"
| "replace_all m r (c # cs) =
     (case m (c # cs) of
        None \<Rightarrow> c # replace_all m r cs
      | Some (n, cap) \<Rightarrow>
          if n = 0 then r cap @ c # replace_all m r cs
          else r cap @ replace_all m r (drop n (c # cs)))"
  by pat_completeness auto
termination
  by (relation "measure (\<lambda>(m, r, s). length s)") auto

text \<open>\<open>strip_prefix p s\<close>: the rest of \<open>s\<close> after the literal \<open>p\<close>, if \<open>s\<close> starts with it.\<close>

fun strip_prefix :: "jsstring \<Rightarrow> jsstring \<Rightarrow> jsstring option" where
  "strip_prefix [] s = Some s"
| "strip_prefix (p # ps) [] = None"
| "strip_prefix (p # ps) (c # cs) = (if p = c then strip_prefix ps cs else None)"

text \<open>
  \<open>C+\<close> followed by the literal code unit \<open>stop\<close>, where \<open>stop\<close> is not in the class
  \<open>C\<close>: the greedy \<open>C+\<close> takes the longest run of \<open>C\<close>, and no shorter run can be
  followed by \<open>stop\<close>, so backtracking never finds another match. Returns the run and
  the rest after \<open>stop\<close>.
\<close>

definition run_then :: "(jschar \<Rightarrow> bool) \<Rightarrow> jschar \<Rightarrow> jsstring \<Rightarrow> (jsstring \<times> jsstring) option" where
  "run_then C stop s =
     (let run = takeWhile C s; rest = dropWhile C s
      in if run = [] then None
         else (case rest of [] \<Rightarrow> None
               | c # rest' \<Rightarrow> if c = stop then Some (run, rest') else None))"

text \<open>\<open>/<@[A-Z0-9]+>/\<close>\<close>

definition user_mention :: matcher where
  "user_mention s =
     (case strip_prefix (js ''<@'') s of None \<Rightarrow> None
      | Some t \<Rightarrow> (case run_then is_id_char 62 t of None \<Rightarrow> None
                  | Some (ident, _) \<Rightarrow> Some (2 + length ident + 1, [])))"

text \<open>\<open>/<#[A-Z0-9]+\|([^>]+)>/\<close>; group 1 is the channel name.\<close>

definition channel_named :: matcher where
  "channel_named s =
     (case strip_prefix (js ''<#'') s of None \<Rightarrow> None
      | Some t \<Rightarrow> (case run_then is_id_char 124 t of None \<Rightarrow> None
                  | Some (ident, u) \<Rightarrow> (case run_then not_gt 62 u of None \<Rightarrow> None
                      | Some (name, _) \<Rightarrow> Some (2 + length ident + 1 + length name + 1, name))))"

text \<open>\<open>/<#[A-Z0-9]+>/\<close>\<close>

definition channel_plain :: matcher where
  "channel_plain s =
     (case strip_prefix (js ''<#'') s of None \<Rightarrow> None
      | Some t \<Rightarrow> (case run_then is_id_char 62 t of None \<Rightarrow> None
                  | Some (ident, _) \<Rightarrow> Some (2 + length ident + 1, [])))"

text \<open>
  \<open>https?:\/\/\<close> at the start of \<open>s\<close>: the number of code units it takes and the rest.
  When an \<open>s\<close> follows \<open>http\<close> the optional \<open>s?\<close> must take it, since \<open>:\<close> cannot
  match it.
\<close>

definition scheme :: "jsstring \<Rightarrow> (nat \<times> jsstring) option" where
  "scheme s =
     (case strip_prefix (js ''http'') s of None \<Rightarrow> None
      | Some t \<Rightarrow>
          (case t of
             c # t' \<Rightarrow>
               if c = 115 then (case strip_prefix (js ''://'') t' of None \<Rightarrow> None
                                | Some u \<Rightarrow> Some (8, u))
               else (case strip_prefix (js ''://'') t of None \<Rightarrow> None
                     | Some u \<Rightarrow> Some (7, u))
           | [] \<Rightarrow> None))"

text \<open>\<open>/<https?:\/\/[^>]+>/\<close>\<close>

definition angle_url :: matcher where
  "angle_url s =
     (case s of [] \<Rightarrow> None
      | c # t \<Rightarrow>
          if c \<noteq> 60 then None
          else (case scheme t of None \<Rightarrow> None
                | Some (k, u) \<Rightarrow> (case run_then not_gt 62 u of None \<Rightarrow> None
                    | Some (body, _) \<Rightarrow> Some (1 + k + length body + 1, []))))"

text \<open>\<open>/https?:\/\/\S+/\<close>: the greedy \<open>\S+\<close> ends the pattern, so it takes the whole run.\<close>

definition bare_url :: matcher where
  "bare_url s =
     (case scheme s of None \<Rightarrow> None
      | Some (k, u) \<Rightarrow>
          (let run = takeWhile (\<lambda>c. \<not> is_space c) u
           in if run = [] then None else Some (k + length run, [])))"

text \<open>\<open>/:[a-z0-9_+-]+:/\<close>\<close>

definition emoji_code :: matcher where
  "emoji_code s =
     (case s of [] \<Rightarrow> None
      | c # t \<Rightarrow>
          if c \<noteq> 58 then None
          else (case run_then is_emoji_char 58 t of None \<Rightarrow> None
                | Some (name, _) \<Rightarrow> Some (1 + length name + 1, [])))"

text \<open>\<open>/\s+/\<close>\<close>

definition space_run :: matcher where
  "space_run s =
     (let run = takeWhile is_space s in if run = [] then None else Some (length run, []))"

section \<open>preprocessText\<close>

text \<open>
  \<open>normalize_text\<close> is the value of the variable \<open>processed\<close> after the whitespace step,
  just before the length test of \<open>preprocessText\<close>.
\<close>

definition MIN_LENGTH :: nat where
  "MIN_LENGTH = 10"

definition normalize_text :: "jsstring \<Rightarrow> jsstring" where
  "normalize_text text =
     (let processed = text;
          processed = replace_all user_mention (\<lambda>_. js ''@user'') processed;
          processed = replace_all channel_named (\<lambda>name. js ''#'' @ name) processed;
          processed = replace_all channel_plain (\<lambda>_. js ''#channel'') processed;
          processed = replace_all angle_url (\<lambda>_. js ''[link]'') processed;
          processed = replace_all bare_url (\<lambda>_. js ''[link]'') processed;
          processed = replace_all emoji_code (\<lambda>_. []) processed;
          processed = trim (replace_all space_run (\<lambda>_. js '' '') processed)
      in processed)"

definition preprocessText :: "jsstring \<Rightarrow> jsstring" where
  "preprocessText text =
     (let processed = normalize_text text
      in if length processed < MIN_LENGTH then [] else processed)"

section \<open>The embedding provider\<close>

text \<open>
  An embedding is an array of numbers that the module stores and copies and never
  computes with: its entries are the real numbers they denote.
\<close>

type_synonym vector = "real list"

definition EMBEDDING_DIMENSIONS :: nat where
  "EMBEDDING_DIMENSIONS = 1024"

definition MAX_BATCH_SIZE :: nat where
  "MAX_BATCH_SIZE = 96"

definition RATE_LIMIT_DELAY_MS :: nat where
  "RATE_LIMIT_DELAY_MS = 100"

text \<open>\<open>new Array(EMBEDDING_DIMENSIONS).fill(0)\<close>\<close>

definition zero_vector :: vector where
  "zero_vector = replicate EMBEDDING_DIMENSIONS 0"

text \<open>
  What the provider's client throws when a call fails. The code reads only the
  \<open>message\<close> of the value it catches; whatever else the value carries (status code,
  error class) is summarised as its kind, one of the kinds of failure the
  specification tells apart.
\<close>

datatype failure_kind = ProviderUnavailable | RateLimited | MalformedInput

record provider_failure =
  failure_kind :: failure_kind
  message :: jsstring

text \<open>The errors the module itself throws: \<open>new Error(message)\<close>.\<close>

datatype js_error = Error jsstring

text \<open>
  \<open>cohere.embed\<close> is an external call. Its answer may depend on anything, so the
  provider is a function of the number of the call within one run (from 0) and of the
  texts submitted. It throws (\<open>Inl\<close>) or returns a response; the response is \<open>None\<close>
  when it has no \<open>embeddings\<close> array and \<open>Some\<close> of the array otherwise.
\<close>

type_synonym provider = "nat \<Rightarrow> jsstring list \<Rightarrow> provider_failure + vector list option"

text \<open>What a run does to the outside: provider calls and timer delays, in order.\<close>

datatype event = Embed "jsstring list" | Delay nat

text \<open>
  The messages of the \<open>TypeError\<close>s that reading a property of \<open>undefined\<close> throws
  (the wording of V8).
\<close>

definition undefined_property_message :: "string \<Rightarrow> jsstring" where
  "undefined_property_message prop =
     js ''Cannot read properties of undefined (reading '' @ [39] @ js prop @ [39] @ js '')''"

section \<open>createEmbedding\<close>

text \<open>\<open>!text || text.trim().length === 0\<close>\<close>

definition is_blank :: "jsstring \<Rightarrow> bool" where
  "is_blank text \<longleftrightarrow> text = [] \<or> length (trim text) = 0"

text \<open>
  The result is the list of events and either the error thrown or the value returned;
  the value is \<open>None\<close> when \<open>response.embeddings[0]\<close> is \<open>undefined\<close> (an empty array).
\<close>

definition createEmbedding :: "provider \<Rightarrow> jsstring \<Rightarrow> event list \<times> (js_error + vector option)" where
  "createEmbedding cohere text =
     (if is_blank text then ([], Inr (Some zero_vector))
      else
        ([Embed [text]],
         case cohere 0 [text] of
           Inl error \<Rightarrow> Inl (Error (js ''Embedding failed: '' @ message error))
         | Inr None \<Rightarrow>
             Inl (Error (js ''Embedding failed: '' @ undefined_property_message ''0''))
         | Inr (Some embeddings) \<Rightarrow>
             Inr (case embeddings of [] \<Rightarrow> None | e # _ \<Rightarrow> Some e)))"

section \<open>createEmbeddings\<close>

text \<open>\<open>text && text.trim().length > 0\<close>\<close>

definition has_content :: "jsstring \<Rightarrow> bool" where
  "has_content text \<longleftrightarrow> text \<noteq> [] \<and> 0 < length (trim text)"

text \<open>The array \<open>validTexts\<close> of \<open>{ index, text }\<close>, built by the first \<open>forEach\<close>.\<close>

definition validTexts :: "jsstring list \<Rightarrow> (nat \<times> jsstring) list" where
  "validTexts texts = filter (\<lambda>(index, text). has_content text) (zip [0..<length texts] texts)"

text \<open>
  \<open>response.embeddings.forEach((embedding, batchIndex) => { results[batch[batchIndex].index] = embedding })\<close>:
  the embeddings and the batch are walked together from index 0. An embedding beyond
  the end of the batch reads \<open>batch[batchIndex]\<close> as \<open>undefined\<close> and throws a
  \<open>TypeError\<close> (\<open>None\<close>).
\<close>

fun scatter :: "(nat \<times> jsstring) list \<Rightarrow> vector list \<Rightarrow> vector option list \<Rightarrow> vector option list option" where
  "scatter batch [] results = Some results"
| "scatter [] (embedding # embeddings) results = None"
| "scatter ((originalIndex, text) # batch) (embedding # embeddings) results =
     scatter batch embeddings (results[originalIndex := Some embedding])"

text \<open>The provider call of one batch and the mapping back, inside the \<open>try\<close>.\<close>

definition embed_batch ::
  "provider \<Rightarrow> nat \<Rightarrow> (nat \<times> jsstring) list \<Rightarrow> vector option list \<Rightarrow> js_error + vector option list" where
  "embed_batch cohere k batch results =
     (case cohere k (map snd batch) of
        Inl error \<Rightarrow> Inl (Error (js ''Batch embedding failed: '' @ message error))
      | Inr None \<Rightarrow> Inr results
      | Inr (Some embeddings) \<Rightarrow>
          (case scatter batch embeddings results of
             None \<Rightarrow>
               Inl (Error (js ''Batch embedding failed: '' @ undefined_property_message ''index''))
           | Some results' \<Rightarrow> Inr results'))"

text \<open>
  The \<open>for\<close> loop over \<open>validTexts\<close> in steps of \<open>MAX_BATCH_SIZE\<close>, from \<open>i\<close>. The batch
  at \<open>i\<close> is provider call number \<open>i div MAX_BATCH_SIZE\<close>.
\<close>

function batch_loop ::
  "provider \<Rightarrow> (nat \<times> jsstring) list \<Rightarrow> nat \<Rightarrow> vector option list \<Rightarrow>
     event list \<times> (js_error + vector option list)" where
  "batch_loop cohere valid i results =
     (if i < length valid then
        (let batch = take MAX_BATCH_SIZE (drop i valid) in
         case embed_batch cohere (i div MAX_BATCH_SIZE) batch results of
           Inl error \<Rightarrow> ([Embed (map snd batch)], Inl error)
         | Inr results' \<Rightarrow>
             (let pause = (if i + MAX_BATCH_SIZE < length valid
                           then [Delay RATE_LIMIT_DELAY_MS] else []);
                  rest = batch_loop cohere valid (i + MAX_BATCH_SIZE) results'
              in (Embed (map snd batch) # pause @ fst rest, snd rest)))
      else ([], Inr results))"
  by pat_completeness auto
termination
  by (relation "measure (\<lambda>(cohere, valid, i, results). length valid - i)")
     (auto simp: MAX_BATCH_SIZE_def)

declare batch_loop.simps [simp del]

definition createEmbeddings :: "provider \<Rightarrow> jsstring list \<Rightarrow> event list \<times> (js_error + vector list)" where
  "createEmbeddings cohere texts =
     (if length texts = 0 then ([], Inr [])
      else
        (let valid = validTexts texts in
         if length valid = 0 then ([], Inr (map (\<lambda>_. zero_vector) texts))
         else
           (let run = batch_loop cohere valid 0 (replicate (length texts) None) in
            (fst run,
             case snd run of
               Inl error \<Rightarrow> Inl error
             | Inr results \<Rightarrow>
                 Inr (map (\<lambda>r. case r of None \<Rightarrow> zero_vector | Some v \<Rightarrow> v) results)))))"

section \<open>JavaScript numbers\<close>

text \<open>
  \<open>cosineSimilarity\<close> computes with JavaScript numbers, the binary64 values of IEEE 754:
  the finite values, here the real numbers they denote, the two infinities and NaN. The
  two zeros are one value: \<open>===\<close> does not tell them apart, and their sign shows only in
  a division by zero, which \<open>cosineSimilarity\<close> does not reach.
\<close>

datatype double = Finite real | PlusInfinity | MinusInfinity | NaN

text \<open>
  The exponent of the binade of \<open>x\<close>, not below that of the subnormal numbers, and the
  distance between neighbouring doubles there (53 significant bits).
\<close>

definition exponent :: "real \<Rightarrow> int" where
  "exponent x = max \<lfloor>log 2 \<bar>x\<bar>\<rfloor> (- 1022)"

definition ulp :: "real \<Rightarrow> real" where
  "ulp x = 2 powr (of_int (exponent x) - 52)"

text \<open>The nearest integer, the even one on a tie.\<close>

definition round_to_even :: "real \<Rightarrow> int" where
  "round_to_even y =
     (let n = \<lfloor>y\<rfloor>; rest = y - of_int n
      in if rest < 1 / 2 then n
         else if 1 / 2 < rest then n + 1
         else if even n then n else n + 1)"

text \<open>
  Rounding to nearest, ties to even: the exact result is rounded to a multiple of the
  \<open>ulp\<close> of its binade; a result that rounds to \<open>2^1024\<close> or beyond overflows to an
  infinity, and one below half the smallest subnormal number becomes zero.
\<close>

definition overflow_threshold :: real where
  "overflow_threshold = 2 ^ 1024"

definition round_double :: "real \<Rightarrow> double" where
  "round_double x =
     (if x = 0 then Finite 0
      else
        (let v = of_int (round_to_even (x / ulp x)) * ulp x
         in if overflow_threshold \<le> \<bar>v\<bar> then (if 0 < x then PlusInfinity else MinusInfinity)
            else Finite v))"

text \<open>The arithmetic of \<open>+\<close>, \<open>*\<close>, \<open>/\<close> and \<open>Math.sqrt\<close> on numbers.\<close>

definition infinity :: "bool \<Rightarrow> double" where
  "infinity negative = (if negative then MinusInfinity else PlusInfinity)"

fun is_negative :: "double \<Rightarrow> bool" where
  "is_negative (Finite x) = (x < 0)"
| "is_negative MinusInfinity = True"
| "is_negative d = False"

fun js_add :: "double \<Rightarrow> double \<Rightarrow> double" where
  "js_add (Finite x) (Finite y) = round_double (x + y)"
| "js_add NaN b = NaN"
| "js_add a NaN = NaN"
| "js_add PlusInfinity MinusInfinity = NaN"
| "js_add MinusInfinity PlusInfinity = NaN"
| "js_add PlusInfinity b = PlusInfinity"
| "js_add a PlusInfinity = PlusInfinity"
| "js_add MinusInfinity b = MinusInfinity"
| "js_add a MinusInfinity = MinusInfinity"

fun js_mul :: "double \<Rightarrow> double \<Rightarrow> double" where
  "js_mul (Finite x) (Finite y) = round_double (x * y)"
| "js_mul NaN b = NaN"
| "js_mul a NaN = NaN"
| "js_mul (Finite x) b = (if x = 0 then NaN else infinity ((x < 0) \<noteq> is_negative b))"
| "js_mul a (Finite y) = (if y = 0 then NaN else infinity (is_negative a \<noteq> (y < 0)))"
| "js_mul a b = infinity (is_negative a \<noteq> is_negative b)"

text \<open>
  A finite number divided by zero: the zero is taken as \<open>+0\<close>.
\<close>

fun js_div :: "double \<Rightarrow> double \<Rightarrow> double" where
  "js_div (Finite x) (Finite y) =
     (if y = 0 then (if x = 0 then NaN else infinity (x < 0)) else round_double (x / y))"
| "js_div NaN b = NaN"
| "js_div a NaN = NaN"
| "js_div (Finite x) b = Finite 0"
| "js_div a (Finite y) = infinity (is_negative a \<noteq> (y < 0))"
| "js_div a b = NaN"

fun js_sqrt :: "double \<Rightarrow> double" where
  "js_sqrt (Finite x) = (if x < 0 then NaN else round_double (sqrt x))"
| "js_sqrt PlusInfinity = PlusInfinity"
| "js_sqrt MinusInfinity = NaN"
| "js_sqrt NaN = NaN"

section \<open>cosineSimilarity\<close>

text \<open>
  The \<open>for\<close> loop, run when both arrays have the same length: the accumulators are
  \<open>(dotProduct, normA, normB)\<close>.
\<close>

fun cosine_loop ::
  "double list \<Rightarrow> double list \<Rightarrow> double \<times> double \<times> double \<Rightarrow> double \<times> double \<times> double" where
  "cosine_loop (x # a) (y # b) (dotProduct, normA, normB) =
     cosine_loop a b
       (js_add dotProduct (js_mul x y), js_add normA (js_mul x x), js_add normB (js_mul y y))"
| "cosine_loop a b acc = acc"

text \<open>
  The function: the length check, the loop from \<open>(0, 0, 0)\<close>, the guard
  \<open>magnitude === 0\<close> (false of NaN) and the division.
\<close>

definition cosineSimilarity :: "double list \<Rightarrow> double list \<Rightarrow> js_error + double" where
  "cosineSimilarity a b =
     (if length a \<noteq> length b then Inl (Error (js ''Vectors must have the same length''))
      else
        (case cosine_loop a b (Finite 0, Finite 0, Finite 0) of
           (dotProduct, normA, normB) \<Rightarrow>
             (let magnitude = js_mul (js_sqrt normA) (js_sqrt normB)
              in if magnitude = Finite 0 then Inr (Finite 0)
                 else Inr (js_div dotProduct magnitude))))"

section \<open>The tool \<open>search_knowledge_base\<close>\<close>

text \<open>Decimal digits of a natural number, as \<open>String(n)\<close> prints an array length or index.\<close>

function show_nat :: "nat \<Rightarrow> jsstring" where
  "show_nat n = (if n < 10 then [48 + n] else show_nat (n div 10) @ [48 + n mod 10])"
  by pat_completeness auto
termination
  by (relation "measure id") auto

declare show_nat.simps [simp del]

text \<open>
  \<open>x.toFixed(0)\<close> for a number below \<open>10^21\<close> in absolute value: the sign, then the
  integer nearest to the absolute value, the larger one on a tie.
\<close>

definition toFixed0 :: "real \<Rightarrow> jsstring" where
  "toFixed0 x =
     (if x < 0 then js ''-'' @ show_nat (nat \<lfloor>- x + 1 / 2\<rfloor>) else show_nat (nat \<lfloor>x + 1 / 2\<rfloor>))"

text \<open>\<open>parts.join(sep)\<close>\<close>

fun join :: "jsstring \<Rightarrow> jsstring list \<Rightarrow> jsstring" where
  "join sep [] = []"
| "join sep [x] = x"
| "join sep (x # y # ys) = x @ sep @ join sep (y # ys)"

record tool_args =
  args_channel_name :: "jsstring option"
  args_query :: jsstring
  args_limit :: "real option"

record retrieve_options =
  limit :: real
  channelName :: "jsstring option"
  minScore :: real

record scored_result =
  formatted :: jsstring
  score :: real

text \<open>
  \<open>retrieve\<close> and \<open>findChannel\<close> are imported from other modules and are parameters
  here. \<open>retrieve\<close> throws or returns the array \<open>results\<close>; \<open>findChannel\<close> throws or
  returns the name of the channel it found, if any.
\<close>

type_synonym retriever = "jsstring \<Rightarrow> retrieve_options \<Rightarrow> js_error + scored_result list"
type_synonym channel_finder = "jsstring \<Rightarrow> js_error + jsstring option"

text \<open>The clean-up of \<open>args.query\<close>.\<close>

definition clean_query :: "jsstring \<Rightarrow> jsstring" where
  "clean_query searchQuery =
     trim (replace_all angle_url (\<lambda>_. [])
            (replace_all user_mention (\<lambda>_. [])
              (replace_all channel_plain (\<lambda>_. [])
                (replace_all channel_named (\<lambda>name. js ''#'' @ name) searchQuery))))"

text \<open>\<open>.replace(/^#/, '')\<close>\<close>

definition strip_hash :: "jsstring \<Rightarrow> jsstring" where
  "strip_hash s = (case s of [] \<Rightarrow> [] | c # cs \<Rightarrow> if c = 35 then cs else s)"

text \<open>The clean-up of a non-empty \<open>channelNameFilter\<close>.\<close>

definition clean_channel_name :: "jsstring \<Rightarrow> jsstring" where
  "clean_channel_name channelNameFilter =
     trim (strip_hash
            (replace_all channel_plain (\<lambda>_. [])
              (replace_all channel_named (\<lambda>name. name) channelNameFilter)))"

text \<open>
  The value of \<open>channelNameFilter\<close> when \<open>retrieve\<close> is first called: the argument,
  replaced by the name of the channel when it looks like a channel id that
  \<open>findChannel\<close> resolves, then cleaned.
\<close>

definition channel_filter :: "channel_finder \<Rightarrow> tool_args \<Rightarrow> js_error + jsstring option" where
  "channel_filter findChannel args =
     (let channelNameFilter = args_channel_name args;
          resolved =
            (case channelNameFilter of
               None \<Rightarrow> Inr None
             | Some f \<Rightarrow>
                 if f \<noteq> [] \<and> take 1 f = js ''C'' \<and> length f > 8 then
                   (case findChannel f of
                      Inl error \<Rightarrow> Inl error
                    | Inr None \<Rightarrow> Inr (Some f)
                    | Inr (Some name) \<Rightarrow> Inr (Some name))
                 else Inr (Some f))
      in case resolved of
           Inl error \<Rightarrow> Inl error
         | Inr None \<Rightarrow> Inr None
         | Inr (Some f) \<Rightarrow> if f \<noteq> [] then Inr (Some (clean_channel_name f)) else Inr (Some f))"

text \<open>\<open>(args.limit as number) || 10\<close>\<close>

definition limit_of :: "tool_args \<Rightarrow> real" where
  "limit_of args = (case args_limit args of None \<Rightarrow> 10 | Some l \<Rightarrow> if l = 0 then 10 else l)"

definition format_results :: "scored_result list \<Rightarrow> jsstring" where
  "format_results rs =
     join [10]
       (map (\<lambda>(i, r). show_nat (i + 1) @ js ''. '' @ formatted r @ js '' (relevance: '' @
                       toFixed0 (score r * 100) @ js ''%)'')
            (zip [0..<length rs] rs))"

text \<open>The \<open>catch\<close> of \<open>executeTool\<close>.\<close>

definition error_payload :: "js_error \<Rightarrow> jsstring" where
  "error_payload e = (case e of Error msg \<Rightarrow> [10060] @ js '' Error: '' @ msg)"

definition other_channels_payload :: "jsstring \<Rightarrow> scored_result list \<Rightarrow> jsstring" where
  "other_channels_payload channelNameFilter broaderResults =
     js ''No results in #'' @ channelNameFilter @ js '', but found '' @
     show_nat (length broaderResults) @ js '' messages in other channels:'' @ [10, 10] @
     format_results broaderResults"

definition none_payload :: "jsstring \<Rightarrow> jsstring option \<Rightarrow> jsstring" where
  "none_payload searchQuery channelNameFilter =
     js ''No relevant messages found for '' @ [34] @ searchQuery @ [34] @
     (case channelNameFilter of
        None \<Rightarrow> []
      | Some f \<Rightarrow> if f \<noteq> [] then js '' in #'' @ f else []) @ js ''.''"

definition found_payload :: "scored_result list \<Rightarrow> jsstring" where
  "found_payload results =
     js ''Found '' @ show_nat (length results) @ js '' relevant messages:'' @ [10, 10] @
     format_results results"

text \<open>
  The case \<open>'search_knowledge_base'\<close> of \<open>executeTool\<close>, with the \<open>catch\<close> around it:
  the calls of \<open>retrieve\<close> in order, and the string returned. The test
  \<open>if (channelNameFilter)\<close> holds for a string that is not empty.
\<close>

definition search_knowledge_base ::
  "channel_finder \<Rightarrow> retriever \<Rightarrow> tool_args \<Rightarrow> (jsstring \<times> retrieve_options) list \<times> jsstring" where
  "search_knowledge_base findChannel retrieve args =
     (let searchQuery = clean_query (args_query args) in
      case channel_filter findChannel args of
        Inl error \<Rightarrow> ([], error_payload error)
      | Inr channelNameFilter \<Rightarrow>
          (let options = \<lparr>limit = limit_of args, channelName = channelNameFilter,
                          minScore = 3 / 10\<rparr>
           in case retrieve searchQuery options of
                Inl error \<Rightarrow> ([(searchQuery, options)], error_payload error)
              | Inr results \<Rightarrow>
                  if length results = 0 then
                    (case channelNameFilter of
                       None \<Rightarrow> ([(searchQuery, options)], none_payload searchQuery channelNameFilter)
                     | Some f \<Rightarrow>
                         if f \<noteq> [] then
                           (let broader = \<lparr>limit = limit_of args, channelName = None,
                                           minScore = 3 / 10\<rparr>;
                                calls = [(searchQuery, options), (searchQuery, broader)]
                            in case retrieve searchQuery broader of
                                 Inl error \<Rightarrow> (calls, error_payload error)
                               | Inr broaderResults \<Rightarrow>
                                   if length broaderResults > 0 then
                                     (calls, other_channels_payload f broaderResults)
                                   else (calls, none_payload searchQuery channelNameFilter))
                         else ([(searchQuery, options)], none_payload searchQuery channelNameFilter))
                  else ([(searchQuery, options)], found_payload results)))"

section \<open>Notions used in the statements\<close>

text \<open>The dot product, the squared Euclidean norm and the magnitude of a vector.\<close>

definition dot_product :: "vector \<Rightarrow> vector \<Rightarrow> real" where
  "dot_product a b = sum_list (map (\<lambda>(x, y). x * y) (zip a b))"

definition squared_norm :: "vector \<Rightarrow> real" where
  "squared_norm a = sum_list (map (\<lambda>x. x * x) a)"

definition magnitude :: "vector \<Rightarrow> real" where
  "magnitude a = sqrt (squared_norm a)"


text \<open>The provider calls and the delays of a run, in order.\<close>

fun embed_calls :: "event list \<Rightarrow> jsstring list list" where
  "embed_calls [] = []"
| "embed_calls (Embed batch # tr) = batch # embed_calls tr"
| "embed_calls (Delay d # tr) = embed_calls tr"

fun delays :: "event list \<Rightarrow> nat list" where
  "delays [] = []"
| "delays (Embed batch # tr) = delays tr"
| "delays (Delay d # tr) = d # delays tr"

text \<open>
  \<open>alternating\<close>: the run is empty, or it starts with a provider call, ends with a
  provider call, and has exactly one delay of \<open>RATE_LIMIT_DELAY_MS\<close> between any two
  consecutive provider calls.
\<close>

fun alternating :: "event list \<Rightarrow> bool" where
  "alternating [] = True"
| "alternating [Embed b] = True"
| "alternating (Embed b # Delay d # Embed b' # tr) =
     (d = RATE_LIMIT_DELAY_MS \<and> alternating (Embed b' # tr))"
| "alternating tr = False"

text \<open>
  Partition into batches as the specification words it: consecutive batches of at most
  \<open>n\<close> elements, in the original order.
\<close>

function chunks :: "nat \<Rightarrow> 'a list \<Rightarrow> 'a list list" where
  "chunks n xs = (if n = 0 \<or> xs = [] then [] else take n xs # chunks n (drop n xs))"
  by pat_completeness auto
termination
  by (relation "measure (\<lambda>(n, xs). length xs)") auto

declare chunks.simps [simp del]

text \<open>
  A provider call is answered when it returns, and with no more embeddings than texts
  were submitted. (One embedding more is scattered through an entry that the batch does
  not have, which throws.)
\<close>

definition answers :: "provider \<Rightarrow> nat \<Rightarrow> jsstring list \<Rightarrow> bool" where
  "answers cohere k ts =
     (case cohere k ts of
        Inl error \<Rightarrow> False
      | Inr None \<Rightarrow> True
      | Inr (Some embeddings) \<Rightarrow> length embeddings \<le> length ts)"

text \<open>The embedding at position \<open>m\<close> of a response, if the response has one there.\<close>

definition embedding_at :: "provider_failure + vector list option \<Rightarrow> nat \<Rightarrow> vector option" where
  "embedding_at response m =
     (case response of
        Inr (Some embeddings) \<Rightarrow> if m < length embeddings then Some (embeddings ! m) else None
      | _ \<Rightarrow> None)"

text \<open>
  The provider's embedding of the \<open>j\<close>-th submitted text: the texts are submitted in
  batches of \<open>MAX_BATCH_SIZE\<close>, so it is the vector at position \<open>j mod MAX_BATCH_SIZE\<close> of
  the answer to call number \<open>j div MAX_BATCH_SIZE\<close>, if that answer has one there.
\<close>

definition provider_embedding :: "provider \<Rightarrow> jsstring list \<Rightarrow> nat \<Rightarrow> vector option" where
  "provider_embedding cohere submitted j =
     embedding_at
       (cohere (j div MAX_BATCH_SIZE) (chunks MAX_BATCH_SIZE submitted ! (j div MAX_BATCH_SIZE)))
       (j mod MAX_BATCH_SIZE)"

text \<open>
  A string contains a match of a pattern when the pattern matches at some position,
  the end of the string included.
\<close>

definition matches_at :: "matcher \<Rightarrow> jsstring \<Rightarrow> bool" where
  "matches_at m s = (case m s of None \<Rightarrow> False | Some _ \<Rightarrow> True)"

fun has_match :: "matcher \<Rightarrow> jsstring \<Rightarrow> bool" where
  "has_match m [] = matches_at m []"
| "has_match m (c # cs) = (matches_at m (c # cs) \<or> has_match m cs)"

text \<open>
  No markup left: no match of the patterns for user mentions, channel mentions (with
  or without a name), URLs (bracketed or bare) and emoji codes.
\<close>

definition markup_free :: "jsstring \<Rightarrow> bool" where
  "markup_free s \<longleftrightarrow>
     \<not> (has_match user_mention s \<or> has_match channel_named s \<or> has_match channel_plain s \<or>
        has_match angle_url s \<or> has_match bare_url s \<or> has_match emoji_code s)"

text \<open>No two consecutive whitespace code units.\<close>

fun no_space_run :: "jsstring \<Rightarrow> bool" where
  "no_space_run (c # c' # cs) = (\<not> (is_space c \<and> is_space c') \<and> no_space_run (c' # cs))"
| "no_space_run cs = True"

text \<open>
  The patterns \<open>/<@[A-Z0-9]+>/\<close> and \<open>/<#[A-Z0-9]+>/\<close> differ in their second code
  unit only; \<open>id_token d\<close> is the pattern with \<open>d\<close> in that place.
\<close>

definition id_token :: "jschar \<Rightarrow> matcher" where
  "id_token d s =
     (case strip_prefix [60, d] s of None \<Rightarrow> None
      | Some t \<Rightarrow> (case run_then is_id_char 62 t of None \<Rightarrow> None
                  | Some (ident, _) \<Rightarrow> Some (2 + length ident + 1, [])))"

text \<open>
  The value of \<open>processed\<close> in \<open>preprocessText\<close> after the mentions and the links
  are rewritten, before the emoji codes are removed.
\<close>

definition links_rewritten :: "jsstring \<Rightarrow> jsstring" where
  "links_rewritten text =
     (let processed = text;
          processed = replace_all user_mention (\<lambda>_. js ''@user'') processed;
          processed = replace_all channel_named (\<lambda>name. js ''#'' @ name) processed;
          processed = replace_all channel_plain (\<lambda>_. js ''#channel'') processed;
          processed = replace_all angle_url (\<lambda>_. js ''[link]'') processed;
          processed = replace_all bare_url (\<lambda>_. js ''[link]'') processed
      in processed)"

text \<open>
  The value of \<open>processed\<close> after the emoji codes are removed, before the whitespace
  is collapsed.
\<close>

definition emoji_removed :: "jsstring \<Rightarrow> jsstring" where
  "emoji_removed text = replace_all emoji_code (\<lambda>_. []) (links_rewritten text)"

text \<open>
  The code unit \<open>k\<close> stays outside the angle brackets: it never occurs after a \<open><\<close> and
  before the next \<open>>\<close>. The flag tells whether a bracket is open. For \<open>k\<close> the
  opening bracket itself, the brackets are not nested.
\<close>

fun outside :: "jschar \<Rightarrow> bool \<Rightarrow> jsstring \<Rightarrow> bool" where
  "outside k inside [] = True"
| "outside k inside (c # cs) =
     ((c = k \<longrightarrow> \<not> inside) \<and>
      outside k (if c = 60 then True else if c = 62 then False else inside) cs)"

section \<open>Concrete inputs\<close>

text \<open>
  Providers that always fail, with the same message and different kinds; a provider
  that answers every text with the one-entry vector of its length; and one that fails on
  its second call only.
\<close>

definition rate_limited_provider :: provider where
  "rate_limited_provider k ts = Inl \<lparr>failure_kind = RateLimited, message = js ''request failed''\<rparr>"

definition malformed_input_provider :: provider where
  "malformed_input_provider k ts = Inl \<lparr>failure_kind = MalformedInput, message = js ''request failed''\<rparr>"

definition length_provider :: provider where
  "length_provider k ts = Inr (Some (map (\<lambda>t. [real (length t)]) ts))"

definition second_call_fails :: provider where
  "second_call_fails k ts =
     (if k = 1 then Inl \<lparr>failure_kind = RateLimited, message = js ''request failed''\<rparr>
      else length_provider k ts)"

text \<open>
  A provider whose responses have no \<open>embeddings\<close> array, and one that returns a single
  embedding whatever it is sent.
\<close>

definition silent_provider :: provider where
  "silent_provider k ts = Inr None"

definition one_embedding_provider :: provider where
  "one_embedding_provider k ts = Inr (Some [[5]])"

text \<open>One text more than fits into a batch.\<close>

definition many_texts :: "jsstring list" where
  "many_texts = replicate (MAX_BATCH_SIZE + 1) (js ''a'')"

text \<open>
  A search in channel \<open>#eng\<close> that finds nothing there and one message elsewhere.
\<close>

definition no_channel_found :: channel_finder where
  "no_channel_found name = Inr None"

definition other_channel_retriever :: retriever where
  "other_channel_retriever q options =
     (case channelName options of
        Some f \<Rightarrow> Inr []
      | None \<Rightarrow> Inr [\<lparr>formatted = js ''[#ops] bob: we chose Redis'', score = 57 / 100\<rparr>])"

definition eng_search :: tool_args where
  "eng_search = \<lparr>args_channel_name = Some (js ''#eng''), args_query = js ''database decision'',
                 args_limit = None\<rparr>"

section \<open>Properties of cosineSimilarity\<close>

lemma squared_norm_nonneg: "0 \<le> squared_norm a"
  unfolding squared_norm_def by (induction a) auto

lemma squared_norm_zero_iff: "squared_norm a = 0 \<longleftrightarrow> (\<forall>x\<in>set a. x = 0)"
proof (induction a)
  case Nil
  show ?case by (simp add: squared_norm_def)
next
  case (Cons x xs)
  have "0 \<le> squared_norm xs" by (rule squared_norm_nonneg)
  moreover have "squared_norm (x # xs) = x * x + squared_norm xs"
    by (simp add: squared_norm_def)
  moreover have "0 \<le> x * x" by simp
  ultimately have "squared_norm (x # xs) = 0 \<longleftrightarrow> x * x = 0 \<and> squared_norm xs = 0"
    by (smt (verit))
  with Cons.IH show ?case by simp
qed

lemma dot_product_commute: "dot_product a b = dot_product b a"
proof (induction a arbitrary: b)
  case Nil
  show ?case by (simp add: dot_product_def)
next
  case (Cons x xs)
  show ?case
  proof (cases b)
    case Nil
    then show ?thesis by (simp add: dot_product_def)
  next
    case (Cons y ys)
    with Cons.IH [of ys] show ?thesis by (simp add: dot_product_def mult.commute)
  qed
qed

lemma cauchy_step:
  fixes D A B x y :: real
  assumes "D\<^sup>2 \<le> A * B" "0 \<le> A" "0 \<le> B"
  shows "(D + x * y)\<^sup>2 \<le> (A + x * x) * (B + y * y)"
proof -
  define u where "u = A * (y * y)"
  define v where "v = B * (x * x)"
  define w where "w = D * (x * y)"
  have u: "0 \<le> u" and v: "0 \<le> v" using assms by (simp_all add: u_def v_def)
  have "(2 * w)\<^sup>2 = 4 * (D\<^sup>2 * ((x * x) * (y * y)))"
    unfolding w_def power2_eq_square by (simp add: mult_ac)
  also have "\<dots> \<le> 4 * ((A * B) * ((x * x) * (y * y)))"
  proof -
    have "0 \<le> (x * x) * (y * y)" by simp
    then have "D\<^sup>2 * ((x * x) * (y * y)) \<le> (A * B) * ((x * x) * (y * y))"
      using assms(1) by (rule mult_right_mono [rotated])
    then show ?thesis by simp
  qed
  also have "\<dots> = 4 * (u * v)" unfolding u_def v_def by (simp add: mult_ac)
  also have "\<dots> \<le> (u + v)\<^sup>2"
  proof -
    have "0 \<le> (u - v)\<^sup>2" by simp
    also have "(u - v)\<^sup>2 = (u + v)\<^sup>2 - 4 * (u * v)"
      by (simp add: power2_eq_square algebra_simps)
    finally show ?thesis by simp
  qed
  finally have "(2 * w)\<^sup>2 \<le> (u + v)\<^sup>2" .
  moreover have "0 \<le> u + v" using u v by simp
  ultimately have le: "2 * w \<le> u + v"
    by (rule power2_le_imp_le)
  have lhs: "(D + x * y)\<^sup>2 = D\<^sup>2 + 2 * w + (x * x) * (y * y)"
    unfolding w_def by (simp add: power2_eq_square algebra_simps)
  have rhs: "(A + x * x) * (B + y * y) = A * B + u + v + (x * x) * (y * y)"
    unfolding u_def v_def by (simp add: algebra_simps)
  show ?thesis unfolding lhs rhs using le assms(1) by linarith
qed

lemma cauchy_schwarz_list:
  "length a = length b \<Longrightarrow> (dot_product a b)\<^sup>2 \<le> squared_norm a * squared_norm b"
proof (induction a b rule: list_induct2)
  case Nil
  show ?case by (simp add: dot_product_def squared_norm_def)
next
  case (Cons x xs y ys)
  have "(dot_product xs ys + x * y)\<^sup>2 \<le> (squared_norm xs + x * x) * (squared_norm ys + y * y)"
    by (rule cauchy_step [OF Cons.IH squared_norm_nonneg squared_norm_nonneg])
  then show ?case by (simp add: dot_product_def squared_norm_def algebra_simps)
qed

lemma abs_dot_le:
  assumes "length a = length b"
  shows "\<bar>dot_product a b\<bar> \<le> magnitude a * magnitude b"
proof -
  have "\<bar>dot_product a b\<bar> = sqrt ((dot_product a b)\<^sup>2)" by simp
  also have "\<dots> \<le> sqrt (squared_norm a * squared_norm b)"
    by (rule real_sqrt_le_mono) (rule cauchy_schwarz_list [OF assms])
  finally show ?thesis by (simp add: magnitude_def real_sqrt_mult)
qed

text \<open>Rounding at given values.\<close>

lemma round_to_even_near:
  assumes "\<bar>y - of_int m\<bar> < 1 / 2"
  shows "round_to_even y = m"
proof (cases "of_int m \<le> y")
  case True
  with assms have "\<lfloor>y\<rfloor> = m" by (intro floor_unique) linarith+
  with assms True show ?thesis by (simp add: round_to_even_def Let_def)
next
  case False
  with assms have f: "\<lfloor>y\<rfloor> = m - 1" by (intro floor_unique) auto
  have "1 / 2 < y - of_int (m - 1)" using assms False by auto
  with f show ?thesis by (simp add: round_to_even_def Let_def)
qed

lemma exponent_eq:
  assumes "2 powr of_int e \<le> \<bar>x\<bar>" "\<bar>x\<bar> < 2 powr (of_int e + 1)" "- 1022 \<le> e"
  shows "exponent x = e"
proof -
  have "0 < \<bar>x\<bar>" using assms(1) by (smt (verit) powr_gt_zero)
  then have "\<lfloor>log 2 \<bar>x\<bar>\<rfloor> = e"
    using assms(1,2) by (simp add: floor_log_eq_powr_iff)
  with assms(3) show ?thesis by (simp add: exponent_def)
qed

lemma exponent_subnormal:
  assumes "x \<noteq> 0" "\<bar>x\<bar> < 2 powr (- 1022)"
  shows "exponent x = - 1022"
proof -
  have pos: "0 < \<bar>x\<bar>" using assms(1) by simp
  then have "log 2 \<bar>x\<bar> < - 1022"
    using assms(2) by (simp add: log_less_iff)
  then have "\<lfloor>log 2 \<bar>x\<bar>\<rfloor> \<le> - 1022" by linarith
  then show ?thesis by (simp add: exponent_def)
qed

lemma round_double_near:
  assumes "x \<noteq> 0" "exponent x = e" "\<bar>x / 2 powr (of_int e - 52) - of_int m\<bar> < 1 / 2"
    "\<bar>of_int m * 2 powr (of_int e - 52)\<bar> < overflow_threshold"
  shows "round_double x = Finite (of_int m * 2 powr (of_int e - 52))"
proof -
  have u: "ulp x = 2 powr (of_int e - 52)" by (simp add: ulp_def assms(2))
  have "round_to_even (x / ulp x) = m" unfolding u using assms(3) by (rule round_to_even_near)
  with assms(1,4) show ?thesis by (simp add: round_double_def Let_def u)
qed


lemma round_double_zero: "round_double 0 = Finite 0"
  by (simp add: round_double_def)

lemma round_double_scaled:
  fixes x :: real and n :: nat
  assumes "2 ^ 52 \<le> \<bar>x\<bar> * 2 ^ n" "\<bar>x\<bar> * 2 ^ n < 2 ^ 53" "n \<le> 1074"
    "\<bar>x * 2 ^ n - of_int m\<bar> < 1 / 2" "\<bar>m\<bar> < 2 ^ 53"
  shows "round_double x = Finite (of_int m / 2 ^ n)"
proof -
  define e :: int where "e = 52 - int n"
  have p: "(2::real) powr (of_int e - 52) = 1 / 2 ^ n"
    by (simp add: e_def powr_minus powr_realpow divide_simps)
  have pe: "(2::real) powr of_int e = 2 ^ 52 / 2 ^ n"
    by (simp add: e_def powr_diff powr_realpow)
  have pe1: "(2::real) powr (of_int e + 1) = 2 ^ 53 / 2 ^ n"
    using pe by (simp add: powr_add)
  have x: "x \<noteq> 0" using assms(1) by auto
  have ex: "exponent x = e"
  proof (rule exponent_eq)
    show "2 powr of_int e \<le> \<bar>x\<bar>" unfolding pe using assms(1) by (simp add: divide_simps)
    show "\<bar>x\<bar> < 2 powr (of_int e + 1)" unfolding pe1 using assms(2) by (simp add: divide_simps)
    show "- 1022 \<le> e" using assms(3) by (simp add: e_def)
  qed
  have "\<bar>of_int m * (2::real) powr (of_int e - 52)\<bar> = \<bar>of_int m\<bar> / 2 ^ n"
    unfolding p by (simp add: abs_mult)
  also have "\<dots> \<le> \<bar>of_int m\<bar>"
  proof -
    have "(1::real) \<le> 2 ^ n" by simp
    then have "\<bar>real_of_int m\<bar> * 1 \<le> \<bar>real_of_int m\<bar> * 2 ^ n"
      by (intro mult_left_mono) simp_all
    then show ?thesis by (simp add: divide_le_eq)
  qed
  also have "\<dots> < 2 ^ 53" using assms(5) by (metis of_int_abs of_int_less_numeral_power_cancel_iff)
  also have "\<dots> \<le> overflow_threshold" by (simp add: overflow_threshold_def)
  finally have bound: "\<bar>of_int m * 2 powr (of_int e - 52)\<bar> < overflow_threshold" .
  have "round_double x = Finite (of_int m * 2 powr (of_int e - 52))"
    using x ex _ bound
  proof (rule round_double_near)
    show "\<bar>x / 2 powr (of_int e - 52) - of_int m\<bar> < 1 / 2"
      unfolding p using assms(4) by simp
  qed
  then show ?thesis unfolding p by simp
qed


lemma round_double_scaled_up:
  fixes x :: real and n :: nat
  assumes "2 ^ 52 \<le> \<bar>x\<bar> / 2 ^ n" "\<bar>x\<bar> / 2 ^ n < 2 ^ 53" "n \<le> 971"
    "\<bar>x / 2 ^ n - of_int m\<bar> < 1 / 2" "\<bar>m\<bar> < 2 ^ 53"
  shows "round_double x = Finite (of_int m * 2 ^ n)"
proof -
  define e :: int where "e = 52 + int n"
  have p: "(2::real) powr (of_int e - 52) = 2 ^ n"
    by (simp add: e_def powr_realpow)
  have pe: "(2::real) powr of_int e = 2 ^ 52 * 2 ^ n"
    by (simp add: e_def powr_add powr_realpow)
  have pe1: "(2::real) powr (of_int e + 1) = 2 ^ 53 * 2 ^ n"
    using pe by (simp add: powr_add)
  have x: "x \<noteq> 0" using assms(1) by auto
  have ex: "exponent x = e"
  proof (rule exponent_eq)
    show "2 powr of_int e \<le> \<bar>x\<bar>" unfolding pe using assms(1) by (simp add: divide_simps)
    show "\<bar>x\<bar> < 2 powr (of_int e + 1)" unfolding pe1 using assms(2) by (simp add: divide_simps)
    show "- 1022 \<le> e" by (simp add: e_def)
  qed
  have "\<bar>of_int m * (2::real) powr (of_int e - 52)\<bar> = \<bar>of_int m\<bar> * 2 ^ n"
    unfolding p by (simp add: abs_mult)
  also have "\<dots> < 2 ^ 53 * 2 ^ n"
  proof -
    have "\<bar>real_of_int m\<bar> < 2 ^ 53"
      using assms(5) by (metis of_int_abs of_int_less_numeral_power_cancel_iff)
    then show ?thesis by simp
  qed
  also have "\<dots> \<le> 2 ^ 53 * 2 ^ 971"
    using assms(3) by (intro mult_left_mono power_increasing) simp_all
  also have "\<dots> = overflow_threshold" by (simp add: overflow_threshold_def)
  finally have bound: "\<bar>of_int m * 2 powr (of_int e - 52)\<bar> < overflow_threshold" .
  have "round_double x = Finite (of_int m * 2 powr (of_int e - 52))"
    using x ex _ bound
  proof (rule round_double_near)
    show "\<bar>x / 2 powr (of_int e - 52) - of_int m\<bar> < 1 / 2"
      unfolding p using assms(4) by simp
  qed
  then show ?thesis unfolding p by simp
qed

lemma round_to_even_ge: "\<lfloor>y\<rfloor> \<le> round_to_even y"
  by (simp add: round_to_even_def Let_def)

lemma round_double_overflow:
  assumes "overflow_threshold \<le> x"
  shows "round_double x = PlusInfinity"
proof -
  have t: "overflow_threshold = 2 powr 1024"
    by (simp add: overflow_threshold_def powr_realpow [symmetric])
  have "0 < overflow_threshold" unfolding t by simp
  with assms have pos: "0 < x" by linarith
  define e where "e = \<lfloor>log 2 x\<rfloor>"
  have "2 powr 1024 \<le> x" using assms unfolding t .
  moreover have one: "(1::real) < 2" by simp
  ultimately have "1024 \<le> log 2 x" using le_log_iff [OF one pos, of 1024] by blast
  then have e: "1024 \<le> e" unfolding e_def by linarith
  moreover have "\<bar>x\<bar> = x" using pos by simp
  ultimately have ex: "exponent x = e" by (simp add: exponent_def e_def)
  have "of_int e \<le> log 2 x" unfolding e_def by simp
  then have lo: "2 powr of_int e \<le> x"
    using le_log_iff [OF one pos, of "of_int e"] by blast
  define u where "u = (2::real) powr (of_int e - 52)"
  have u: "0 < u" unfolding u_def by simp
  have split: "(2::real) powr of_int e = 2 powr 52 * u"
    unfolding u_def by (simp only: powr_add [symmetric]) simp
  have p52: "(2::real) powr 52 = of_int (2 ^ 52)"
    by (simp add: powr_realpow [symmetric])
  from lo split have "2 powr 52 * u \<le> x" by simp
  then have "2 powr 52 \<le> x / u" using u by (simp only: le_divide_eq) simp
  then have "(2 ^ 52 :: int) \<le> \<lfloor>x / u\<rfloor>" unfolding p52 by (simp only: le_floor_iff)
  then have m: "(2 ^ 52 :: int) \<le> round_to_even (x / u)"
    using round_to_even_ge [of "x / u"] by (rule order_trans)
  then have "(2::real) powr 52 \<le> of_int (round_to_even (x / u))"
    unfolding p52 by (simp only: of_int_le_iff)
  then have "2 powr 52 * u \<le> of_int (round_to_even (x / u)) * u"
    using u by (simp only: mult_le_cancel_right) simp
  moreover have "(2::real) powr 1024 \<le> 2 powr of_int e"
    using e by (intro powr_mono) simp_all
  ultimately have big: "overflow_threshold \<le> of_int (round_to_even (x / u)) * u"
    unfolding t split by (rule order_trans [rotated])
  with \<open>0 < overflow_threshold\<close> have "overflow_threshold \<le> \<bar>of_int (round_to_even (x / u)) * u\<bar>"
    by linarith
  then show ?thesis
    using pos unfolding round_double_def Let_def ulp_def ex u_def by simp
qed

lemma round_double_underflow:
  assumes "\<bar>x\<bar> * 2 ^ 1075 < 1"
  shows "round_double x = Finite 0"
proof (cases "x = 0")
  case True
  then show ?thesis by (simp add: round_double_zero)
next
  case False
  have p: "(2::real) powr (- 1074) = 1 / 2 ^ 1074"
    by (simp add: powr_minus powr_realpow [symmetric] divide_simps)
  have "\<bar>x\<bar> < 1 / 2 ^ 1075" using assms by (simp add: less_divide_eq)
  also have "\<dots> \<le> 2 powr (- 1022)"
    by (simp add: powr_minus powr_realpow [symmetric] divide_simps)
  finally have ex: "exponent x = - 1022" using False by (intro exponent_subnormal)
  have e2: "(of_int (- 1022) - 52 :: real) = - 1074" by simp
  have "\<bar>x / 2 powr (of_int (- 1022) - 52) - of_int 0\<bar> = \<bar>x\<bar> * 2 ^ 1074"
    unfolding e2 p by (simp add: abs_mult)
  also have "\<dots> < 1 / 2" using assms by simp
  finally have near: "\<bar>x / 2 powr (of_int (- 1022) - 52) - of_int 0\<bar> < 1 / 2" .
  have "round_double x = Finite (of_int 0 * 2 powr (of_int (- 1022) - 52))"
    using False ex near by (rule round_double_near) (simp add: overflow_threshold_def)
  then show ?thesis by simp
qed

lemma js_mul_commute: "js_mul a b = js_mul b a"
  by (cases a; cases b) (auto simp: mult.commute infinity_def)

lemma cosine_loop_swap:
  "cosine_loop b a (d, nb, na) =
     (case cosine_loop a b (d, na, nb) of (d', na', nb') \<Rightarrow> (d', nb', na'))"
proof (induction a arbitrary: b d na nb)
  case Nil
  show ?case by (cases b) simp_all
next
  case (Cons x a)
  show ?case
  proof (cases b)
    case Nil
    then show ?thesis by simp
  next
    case (Cons y b')
    with Cons.IH [of b'] show ?thesis by (simp add: js_mul_commute [of y x])
  qed
qed

text \<open>
  Claim C10: \<open>cosineSimilarity\<close> is commutative: swapping the two vectors gives the same
  result (the same error when the lengths differ).
\<close>

theorem cosineSimilarity_commutes: "cosineSimilarity a b = cosineSimilarity b a"
proof (cases "length a = length b")
  case False
  then show ?thesis by (auto simp: cosineSimilarity_def)
next
  case True
  obtain d na nb where l: "cosine_loop a b (Finite 0, Finite 0, Finite 0) = (d, na, nb)"
    by (cases "cosine_loop a b (Finite 0, Finite 0, Finite 0)")
  with cosine_loop_swap [of b a "Finite 0" "Finite 0" "Finite 0"]
  have "cosine_loop b a (Finite 0, Finite 0, Finite 0) = (d, nb, na)" by simp
  with l True show ?thesis
    by (simp add: cosineSimilarity_def js_mul_commute [of "js_sqrt na"])
qed

lemma round_double_1: "round_double 1 = Finite 1"
  using round_double_scaled [of 1 52 "2 ^ 52"] by simp

lemma round_double_2: "round_double 2 = Finite 2"
  using round_double_scaled [of 2 51 "2 ^ 52"] by simp

lemma round_double_3: "round_double 3 = Finite 3"
  using round_double_scaled [of 3 51 "3 * 2 ^ 51"] by simp

lemma sqrt_3_bounds:
  "15600926743107923 / 2 ^ 53 < sqrt 3" "sqrt 3 < 15600926743107925 / 2 ^ 53"
proof -
  show "15600926743107923 / 2 ^ 53 < sqrt 3"
    by (rule real_less_rsqrt) (simp add: power2_eq_square)
  show "sqrt 3 < 15600926743107925 / 2 ^ 53"
    by (rule real_less_lsqrt) (simp_all add: power2_eq_square)
qed

lemma round_double_sqrt_3: "round_double (sqrt 3) = Finite (7800463371553962 / 2 ^ 52)"
proof -
  from sqrt_3_bounds have b: "15600926743107923 < sqrt 3 * 2 ^ 53" "sqrt 3 * 2 ^ 53 < 15600926743107925"
    by (simp_all add: divide_less_eq less_divide_eq)
  have "2 ^ 52 \<le> \<bar>sqrt 3\<bar> * 2 ^ 52" by simp
  moreover have "\<bar>sqrt 3\<bar> * 2 ^ 52 < 2 ^ 53" using b(2) by simp
  moreover have "\<bar>sqrt 3 * 2 ^ 52 - of_int 7800463371553962\<bar> < 1 / 2"
  proof -
    have "sqrt 3 * 2 ^ 52 - 7800463371553962 < 1 / 2" using b(2) by simp
    moreover have "- (sqrt 3 * 2 ^ 52 - 7800463371553962) < 1 / 2" using b(1) by simp
    ultimately show ?thesis unfolding abs_less_iff by simp
  qed
  ultimately show ?thesis
    using round_double_scaled [of "sqrt 3" 52 7800463371553962] by simp
qed

lemma round_double_square:
  "round_double (7800463371553962 / 2 ^ 52 * (7800463371553962 / 2 ^ 52)) =
   Finite (6755399441055743 / 2 ^ 51)"
  using round_double_scaled [of "7800463371553962 / 2 ^ 52 * (7800463371553962 / 2 ^ 52)" 51
      6755399441055743]
  by simp

lemma round_double_quotient:
  "round_double (3 / (6755399441055743 / 2 ^ 51)) = Finite (4503599627370497 / 2 ^ 52)"
  using round_double_scaled [of "3 / (6755399441055743 / 2 ^ 51)" 52 4503599627370497]
  by simp

lemma round_double_big: "round_double (2 ^ 600) = Finite (2 ^ 600)"
  using round_double_scaled_up [of "2 ^ 600" 548 "2 ^ 52"] by simp

lemma round_double_big_square: "round_double (2 ^ 600 * 2 ^ 600) = PlusInfinity"
  by (rule round_double_overflow) (simp add: overflow_threshold_def)

lemma round_double_tiny: "round_double (1 / 2 ^ 600) = Finite (1 / 2 ^ 600)"
  using round_double_scaled [of "1 / 2 ^ 600" 652 "2 ^ 52"] by simp

lemma round_double_tiny_square: "round_double (1 / 2 ^ 600 * (1 / 2 ^ 600)) = Finite 0"
  by (rule round_double_underflow) simp

text \<open>
  Claim C3 fails on the code: for two vectors of equal length, one of zero magnitude,
  \<open>cosineSimilarity\<close> does not always return 0. When the squared norm of the other
  vector overflows, \<open>magnitude\<close> is \<open>Infinity * 0\<close>, that is NaN; the guard
  \<open>magnitude === 0\<close> is false and the function returns \<open>0 / NaN\<close>, that is NaN. The
  input is \<open>a = [2 ** 600]\<close>, a double, and \<open>b = [0]\<close>.
\<close>

theorem zero_guard_misses_overflow:
  "cosineSimilarity [Finite (2 ^ 600)] [Finite 0] = Inr NaN"
proof -
  have sq: "js_mul (Finite (2 ^ 600)) (Finite (2 ^ 600)) = PlusInfinity"
    by (simp only: js_mul.simps round_double_big_square)
  have z: "js_mul (Finite (2 ^ 600)) (Finite 0) = Finite 0" "js_mul (Finite 0) (Finite 0) = Finite 0"
    "js_add (Finite 0) (Finite 0) = Finite 0" "js_add (Finite 0) PlusInfinity = PlusInfinity"
    by (simp_all add: round_double_zero)
  have loop: "cosine_loop [Finite (2 ^ 600)] [Finite 0] (Finite 0, Finite 0, Finite 0) =
      (Finite 0, PlusInfinity, Finite 0)"
    by (simp only: cosine_loop.simps sq z)
  show ?thesis
    unfolding cosineSimilarity_def loop by (simp add: round_double_zero)
qed

text \<open>
  Claim C4 fails on the code: paired with itself, the vector \<open>[1, 1, 1]\<close> gives
  \<open>1.0000000000000002\<close>, which is not 1 and not in \<open>[-1, 1]\<close> (\<open>Math.sqrt(3)\<close> squared
  rounds to \<open>2.9999999999999996\<close>), and the vector \<open>[2 ** -600]\<close> gives 0 (its square
  underflows to 0).
\<close>

theorem self_similarity_is_not_one:
  "cosineSimilarity [Finite 1, Finite 1, Finite 1] [Finite 1, Finite 1, Finite 1] =
     Inr (Finite (4503599627370497 / 2 ^ 52))"
proof -
  have p: "js_mul (Finite 1) (Finite 1) = Finite 1" by (simp add: round_double_1)
  have a: "js_add (Finite 0) (Finite 1) = Finite 1" "js_add (Finite 1) (Finite 1) = Finite 2"
    "js_add (Finite 2) (Finite 1) = Finite 3"
    by (simp_all add: round_double_1 round_double_2 round_double_3)
  have loop: "cosine_loop [Finite 1, Finite 1, Finite 1] [Finite 1, Finite 1, Finite 1]
      (Finite 0, Finite 0, Finite 0) = (Finite 3, Finite 3, Finite 3)"
    by (simp only: cosine_loop.simps p a)
  have "\<not> (3::real) < 0" by simp
  then have s: "js_sqrt (Finite 3) = Finite (7800463371553962 / 2 ^ 52)"
    by (simp only: js_sqrt.simps round_double_sqrt_3 if_False)
  have m: "js_mul (Finite (7800463371553962 / 2 ^ 52)) (Finite (7800463371553962 / 2 ^ 52)) =
      Finite (6755399441055743 / 2 ^ 51)"
    by (simp only: js_mul.simps round_double_square)
  have "(6755399441055743 / 2 ^ 51 :: real) \<noteq> 0" by simp
  then have d: "js_div (Finite 3) (Finite (6755399441055743 / 2 ^ 51)) =
      Finite (4503599627370497 / 2 ^ 52)"
    by (simp only: js_div.simps round_double_quotient if_False)
  have nz: "Finite (6755399441055743 / 2 ^ 51) \<noteq> Finite 0" by simp
  show ?thesis
    unfolding cosineSimilarity_def loop by (simp only: s m d nz Let_def if_False prod.case) simp
qed

theorem tiny_self_similarity_is_zero:
  "cosineSimilarity [Finite (1 / 2 ^ 600)] [Finite (1 / 2 ^ 600)] = Inr (Finite 0)"
proof -
  have sq: "js_mul (Finite (1 / 2 ^ 600)) (Finite (1 / 2 ^ 600)) = Finite 0"
    by (simp only: js_mul.simps round_double_tiny_square)
  have z: "js_add (Finite 0) (Finite 0) = Finite 0" by (simp add: round_double_zero)
  have loop: "cosine_loop [Finite (1 / 2 ^ 600)] [Finite (1 / 2 ^ 600)]
      (Finite 0, Finite 0, Finite 0) = (Finite 0, Finite 0, Finite 0)"
    by (simp only: cosine_loop.simps sq z)
  show ?thesis
    unfolding cosineSimilarity_def loop by (simp add: round_double_zero)
qed

section \<open>Properties of the batch loop\<close>

lemma batch_loop_done:
  "\<not> i < length valid \<Longrightarrow> batch_loop cohere valid i results = ([], Inr results)"
  by (subst batch_loop.simps) simp

lemma batch_loop_fail:
  "i < length valid \<Longrightarrow>
   embed_batch cohere (i div MAX_BATCH_SIZE) (take MAX_BATCH_SIZE (drop i valid)) results = Inl e \<Longrightarrow>
   batch_loop cohere valid i results = ([Embed (map snd (take MAX_BATCH_SIZE (drop i valid)))], Inl e)"
  by (subst batch_loop.simps) simp

lemma batch_loop_step:
  "i < length valid \<Longrightarrow>
   embed_batch cohere (i div MAX_BATCH_SIZE) (take MAX_BATCH_SIZE (drop i valid)) results = Inr results' \<Longrightarrow>
   batch_loop cohere valid i results =
     (Embed (map snd (take MAX_BATCH_SIZE (drop i valid))) #
        (if i + MAX_BATCH_SIZE < length valid then [Delay RATE_LIMIT_DELAY_MS] else []) @
        fst (batch_loop cohere valid (i + MAX_BATCH_SIZE) results'),
      snd (batch_loop cohere valid (i + MAX_BATCH_SIZE) results'))"
  by (subst batch_loop.simps) (simp add: Let_def)

lemma batch_loop_cases:
  obtains (finished) "\<not> i < length valid" "batch_loop cohere valid i results = ([], Inr results)"
  | (failed) e where "i < length valid"
      "embed_batch cohere (i div MAX_BATCH_SIZE) (take MAX_BATCH_SIZE (drop i valid)) results = Inl e"
      "batch_loop cohere valid i results = ([Embed (map snd (take MAX_BATCH_SIZE (drop i valid)))], Inl e)"
  | (continued) results' where "i < length valid"
      "embed_batch cohere (i div MAX_BATCH_SIZE) (take MAX_BATCH_SIZE (drop i valid)) results = Inr results'"
      "batch_loop cohere valid i results =
        (Embed (map snd (take MAX_BATCH_SIZE (drop i valid))) #
           (if i + MAX_BATCH_SIZE < length valid then [Delay RATE_LIMIT_DELAY_MS] else []) @
           fst (batch_loop cohere valid (i + MAX_BATCH_SIZE) results'),
         snd (batch_loop cohere valid (i + MAX_BATCH_SIZE) results'))"
proof (cases "i < length valid")
  case False
  then show ?thesis using batch_loop_done that(1) by blast
next
  case True
  show ?thesis
  proof (cases "embed_batch cohere (i div MAX_BATCH_SIZE) (take MAX_BATCH_SIZE (drop i valid)) results")
    case (Inl e)
    then show ?thesis using True batch_loop_fail that(2) by blast
  next
    case (Inr r)
    then show ?thesis using True batch_loop_step that(3) by blast
  qed
qed

lemma alternating_hd:
  "alternating tr \<Longrightarrow> tr \<noteq> [] \<Longrightarrow> \<exists>b tr'. tr = Embed b # tr'"
  by (induction tr rule: alternating.induct) auto

lemma alternating_counts:
  "alternating tr \<Longrightarrow> length (delays tr) = length (embed_calls tr) - 1"
  by (induction tr rule: alternating.induct) auto

lemma alternating_delays:
  "alternating tr \<Longrightarrow> \<forall>d\<in>set (delays tr). d = RATE_LIMIT_DELAY_MS"
  by (induction tr rule: alternating.induct) auto

lemma batch_loop_alternating:
  "alternating (fst (batch_loop cohere valid i results)) \<and>
   (fst (batch_loop cohere valid i results) = [] \<longleftrightarrow> \<not> i < length valid)"
proof (induction "length valid - i" arbitrary: i results rule: less_induct)
  case less
  show ?case
  proof (cases rule: batch_loop_cases [of i valid cohere results])
    case finished
    then show ?thesis by simp
  next
    case (failed e)
    then show ?thesis by simp
  next
    case (continued results')
    let ?rest = "fst (batch_loop cohere valid (i + MAX_BATCH_SIZE) results')"
    have "length valid - (i + MAX_BATCH_SIZE) < length valid - i"
      using continued(1) by (simp add: MAX_BATCH_SIZE_def)
    from less [OF this]
    have alt: "alternating ?rest" and empty: "?rest = [] \<longleftrightarrow> \<not> i + MAX_BATCH_SIZE < length valid"
      by blast+
    show ?thesis
    proof (cases "i + MAX_BATCH_SIZE < length valid")
      case True
      with empty have "?rest \<noteq> []" by simp
      with alt obtain b tr' where "?rest = Embed b # tr'"
        using alternating_hd by blast
      with alt True continued show ?thesis by simp
    next
      case False
      with empty have "?rest = []" by simp
      with False continued show ?thesis by simp
    qed
  qed
qed

lemma batch_loop_failure:
  "m < length (embed_calls (fst (batch_loop cohere valid i results))) \<Longrightarrow>
   cohere (i div MAX_BATCH_SIZE + m) (embed_calls (fst (batch_loop cohere valid i results)) ! m) = Inl failure \<Longrightarrow>
   snd (batch_loop cohere valid i results) =
     Inl (Error (js ''Batch embedding failed: '' @ message failure))"
proof (induction "length valid - i" arbitrary: i results m rule: less_induct)
  case less
  let ?batch = "take MAX_BATCH_SIZE (drop i valid)"
  show ?case
  proof (cases rule: batch_loop_cases [of i valid cohere results])
    case finished
    with less.prems show ?thesis by simp
  next
    case (failed e)
    with less.prems have m: "m = 0" and call: "cohere (i div MAX_BATCH_SIZE) (map snd ?batch) = Inl failure"
      by simp_all
    from call failed(2) have "e = Error (js ''Batch embedding failed: '' @ message failure)"
      by (simp add: embed_batch_def)
    with failed show ?thesis by simp
  next
    case (continued results')
    let ?rest = "batch_loop cohere valid (i + MAX_BATCH_SIZE) results'"
    have calls: "embed_calls (fst (batch_loop cohere valid i results)) = map snd ?batch # embed_calls (fst ?rest)"
      using continued(3) by simp
    show ?thesis
    proof (cases m)
      case 0
      with less.prems(2) calls have "cohere (i div MAX_BATCH_SIZE) (map snd ?batch) = Inl failure"
        by simp
      with continued(2) show ?thesis by (simp add: embed_batch_def)
    next
      case (Suc m')
      have dec: "length valid - (i + MAX_BATCH_SIZE) < length valid - i"
        using continued(1) by (simp add: MAX_BATCH_SIZE_def)
      have idx: "(i + MAX_BATCH_SIZE) div MAX_BATCH_SIZE + m' = i div MAX_BATCH_SIZE + m"
        using Suc by (simp add: MAX_BATCH_SIZE_def)
      have "snd ?rest = Inl (Error (js ''Batch embedding failed: '' @ message failure))"
      proof (rule less.hyps [OF dec, of m'])
        show "m' < length (embed_calls (fst ?rest))"
          using less.prems(1) calls Suc by simp
        show "cohere ((i + MAX_BATCH_SIZE) div MAX_BATCH_SIZE + m') (embed_calls (fst ?rest) ! m') = Inl failure"
          using less.prems(2) calls Suc idx by simp
      qed
      with continued(3) show ?thesis by simp
    qed
  qed
qed

lemma batch_loop_calls:
  "snd (batch_loop cohere valid i results) = Inr results' \<Longrightarrow>
   embed_calls (fst (batch_loop cohere valid i results)) = chunks MAX_BATCH_SIZE (map snd (drop i valid))"
proof (induction "length valid - i" arbitrary: i results rule: less_induct)
  case less
  show ?case
  proof (cases rule: batch_loop_cases [of i valid cohere results])
    case finished
    then show ?thesis by (simp add: chunks.simps)
  next
    case (failed e)
    with less.prems show ?thesis by simp
  next
    case (continued r)
    let ?rest = "batch_loop cohere valid (i + MAX_BATCH_SIZE) r"
    have dec: "length valid - (i + MAX_BATCH_SIZE) < length valid - i"
      using continued(1) by (simp add: MAX_BATCH_SIZE_def)
    have "snd ?rest = Inr results'" using less.prems continued(3) by simp
    from less.hyps [OF dec this]
    have "embed_calls (fst ?rest) = chunks MAX_BATCH_SIZE (map snd (drop (i + MAX_BATCH_SIZE) valid))" .
    moreover have "chunks MAX_BATCH_SIZE (map snd (drop i valid)) =
        map snd (take MAX_BATCH_SIZE (drop i valid)) #
        chunks MAX_BATCH_SIZE (map snd (drop (i + MAX_BATCH_SIZE) valid))"
      using continued(1)
      by (subst chunks.simps) (simp add: MAX_BATCH_SIZE_def take_map drop_map add.commute)
    ultimately show ?thesis using continued(3) by simp
  qed
qed

lemma chunks_nth:
  "0 < n \<Longrightarrow> k * n < length xs \<Longrightarrow> chunks n xs ! k = take n (drop (k * n) xs)"
proof (induction k arbitrary: xs)
  case 0
  then show ?case by (subst chunks.simps) auto
next
  case (Suc k)
  then have "k * n < length (drop n xs)" by simp
  from Suc.IH [OF Suc.prems(1) this] have "chunks n (drop n xs) ! k = take n (drop (k * n + n) xs)"
    by (simp add: add.commute)
  moreover have "xs \<noteq> []" using Suc.prems by auto
  ultimately show ?case using Suc.prems(1) by (subst chunks.simps) (simp add: add.commute)
qed

lemma length_chunks:
  "0 < n \<Longrightarrow> k * n < length xs \<Longrightarrow> k < length (chunks n xs)"
proof (induction k arbitrary: xs)
  case 0
  then show ?case by (subst chunks.simps) auto
next
  case (Suc k)
  then have "k * n < length (drop n xs)" by simp
  from Suc.IH [OF Suc.prems(1) this] have "k < length (chunks n (drop n xs))" .
  moreover have "xs \<noteq> []" using Suc.prems by auto
  ultimately show ?case using Suc.prems(1) by (subst chunks.simps) simp
qed

lemma chunks_length_le: "b \<in> set (chunks n xs) \<Longrightarrow> length b \<le> n \<and> b \<noteq> []"
proof (induction n xs rule: chunks.induct)
  case (1 n xs)
  show ?case
  proof (cases "n = 0 \<or> xs = []")
    case True
    with "1.prems" show ?thesis by (simp add: chunks.simps)
  next
    case False
    with "1.prems" have "b = take n xs \<or> b \<in> set (chunks n (drop n xs))"
      by (subst (asm) chunks.simps) auto
    then show ?thesis using False "1.IH" by auto
  qed
qed

lemma map_snd_validTexts: "map snd (validTexts texts) = filter has_content texts"
proof -
  have "map snd (validTexts texts) =
        map snd (filter (has_content \<circ> snd) (zip [0..<length texts] texts))"
    by (simp add: validTexts_def comp_def case_prod_unfold)
  also have "\<dots> = filter has_content (map snd (zip [0..<length texts] texts))"
    by (rule filter_map [symmetric])
  also have "\<dots> = filter has_content texts" by simp
  finally show ?thesis .
qed

lemma distinct_validTexts: "distinct (map fst (validTexts texts))"
  unfolding validTexts_def by (rule distinct_map_filter) simp

lemma validTexts_member:
  "(index, text) \<in> set (validTexts texts) \<Longrightarrow>
   index < length texts \<and> text = texts ! index \<and> has_content text"
  by (auto simp: validTexts_def set_zip)

lemma filter_zip_nth:
  "i < length xs \<Longrightarrow> P (xs ! i) \<Longrightarrow>
   length (filter P (take i xs)) < length (filter (\<lambda>(index, x). P x) (zip [k..<k + length xs] xs)) \<and>
   filter (\<lambda>(index, x). P x) (zip [k..<k + length xs] xs) ! length (filter P (take i xs)) = (k + i, xs ! i)"
proof (induction xs arbitrary: i k)
  case Nil
  then show ?case by simp
next
  case (Cons x xs)
  have zip: "zip [k..<k + length (x # xs)] (x # xs) = (k, x) # zip [Suc k..<Suc k + length xs] xs"
    by (subst upt_rec) simp
  show ?case
  proof (cases i)
    case 0
    with Cons.prems show ?thesis unfolding zip by simp
  next
    case (Suc i')
    with Cons.prems have "i' < length xs" "P (xs ! i')" by simp_all
    from Cons.IH [OF this, of "Suc k"] show ?thesis unfolding zip using Suc by simp
  qed
qed

lemma validTexts_nth:
  assumes "i < length texts" "has_content (texts ! i)"
  shows "length (filter has_content (take i texts)) < length (validTexts texts)"
    and "validTexts texts ! length (filter has_content (take i texts)) = (i, texts ! i)"
  using filter_zip_nth [where P = has_content and k = 0, OF assms] by (simp_all add: validTexts_def)

lemma scatter_spec:
  "length es \<le> length batch \<Longrightarrow> distinct (map fst batch) \<Longrightarrow>
   \<forall>p\<in>set batch. fst p < length results \<Longrightarrow>
   \<exists>res'. scatter batch es results = Some res' \<and> length res' = length results \<and>
      (\<forall>m<length es. res' ! fst (batch ! m) = Some (es ! m)) \<and>
      (\<forall>x. x \<notin> fst ` set (take (length es) batch) \<longrightarrow> res' ! x = results ! x)"
proof (induction batch es results rule: scatter.induct)
  case (1 batch results)
  then show ?case by simp
next
  case (2 embedding embeddings results)
  then show ?case by simp
next
  case (3 originalIndex tx batch embedding embeddings results)
  note IH = "3.IH" and prems = "3.prems"
  let ?r = "results[originalIndex := Some embedding]"
  let ?n = "length embeddings"
  have "\<exists>res'. scatter batch embeddings ?r = Some res' \<and> length res' = length ?r \<and>
      (\<forall>m<?n. res' ! fst (batch ! m) = Some (embeddings ! m)) \<and>
      (\<forall>x. x \<notin> fst ` set (take ?n batch) \<longrightarrow> res' ! x = ?r ! x)"
    using prems by (intro IH) auto
  then obtain res' where r: "scatter batch embeddings ?r = Some res'" "length res' = length ?r"
    "\<forall>m<?n. res' ! fst (batch ! m) = Some (embeddings ! m)"
    "\<forall>x. x \<notin> fst ` set (take ?n batch) \<longrightarrow> res' ! x = ?r ! x"
    by blast
  have "originalIndex \<notin> fst ` set batch" using prems(2) by auto
  moreover have "set (take ?n batch) \<subseteq> set batch" by (rule set_take_subset)
  ultimately have notin: "originalIndex \<notin> fst ` set (take ?n batch)" by blast
  have lt: "originalIndex < length results" using prems(3) by simp
  have head: "res' ! originalIndex = Some embedding"
    using r(4) notin lt by simp
  have nth: "\<forall>m<length (embedding # embeddings).
      res' ! fst (((originalIndex, tx) # batch) ! m) = Some ((embedding # embeddings) ! m)"
  proof (intro allI impI)
    fix m assume "m < length (embedding # embeddings)"
    then show "res' ! fst (((originalIndex, tx) # batch) ! m) = Some ((embedding # embeddings) ! m)"
      using head r(3) by (cases m) auto
  qed
  have frame: "\<forall>x. x \<notin> fst ` set (take (length (embedding # embeddings)) ((originalIndex, tx) # batch)) \<longrightarrow>
      res' ! x = results ! x"
    using r(4) by auto
  show ?case using r(1,2) nth frame by simp
qed

lemma drop_image_nth:
  "x \<in> fst ` set (drop n xs) \<Longrightarrow> \<exists>j. n \<le> j \<and> j < length xs \<and> x = fst (xs ! j)"
proof -
  assume "x \<in> fst ` set (drop n xs)"
  then obtain p where "p \<in> set (drop n xs)" "x = fst p" by auto
  then obtain m where "m < length (drop n xs)" "drop n xs ! m = p"
    by (auto simp: in_set_conv_nth)
  then have "n \<le> n + m \<and> n + m < length xs \<and> x = fst (xs ! (n + m))"
    using \<open>x = fst p\<close> by auto
  then show ?thesis by blast
qed

lemma distinct_fst_drop:
  assumes "distinct (map fst xs)" "j < n" "j < length xs"
  shows "fst (xs ! j) \<notin> fst ` set (drop n xs)"
proof
  assume "fst (xs ! j) \<in> fst ` set (drop n xs)"
  from drop_image_nth [OF this]
  obtain j' where j': "n \<le> j'" "j' < length xs" "fst (xs ! j) = fst (xs ! j')"
    by (elim exE conjE)
  have "map fst xs ! j = fst (xs ! j)" using assms(3) by (rule nth_map)
  moreover have "map fst xs ! j' = fst (xs ! j')" using j'(2) by (rule nth_map)
  ultimately have "map fst xs ! j = map fst xs ! j'" using j'(3) by (simp only:)
  moreover have "j < length (map fst xs)" "j' < length (map fst xs)"
    using assms(3) j'(2) by simp_all
  ultimately have "j = j'" using nth_eq_iff_index_eq [OF assms(1)] by blast
  with assms(2) j'(1) show False by simp
qed

lemma distinct_fst_take:
  assumes "distinct (map fst xs)" "n \<le> m" "m < length xs"
  shows "fst (xs ! m) \<notin> fst ` set (take n xs)"
proof
  assume "fst (xs ! m) \<in> fst ` set (take n xs)"
  then obtain p where "p \<in> set (take n xs)" "fst (xs ! m) = fst p" by auto
  then obtain m' where m': "m' < length (take n xs)" "take n xs ! m' = p"
    by (auto simp: in_set_conv_nth)
  then have lt: "m' < n" "m' < length xs" by simp_all
  with m' have "xs ! m' = p" by simp
  with \<open>fst (xs ! m) = fst p\<close> have eq: "fst (xs ! m) = fst (xs ! m')" by simp
  have "map fst xs ! m = fst (xs ! m)" using assms(3) by (rule nth_map)
  moreover have "map fst xs ! m' = fst (xs ! m')" using lt(2) by (rule nth_map)
  ultimately have "map fst xs ! m = map fst xs ! m'" using eq by (simp only:)
  moreover have "m < length (map fst xs)" "m' < length (map fst xs)"
    using assms(3) lt(2) by simp_all
  ultimately have "m = m'" using nth_eq_iff_index_eq [OF assms(1)] by blast
  with assms(2) lt(1) show False by simp
qed

lemma embed_batch_spec:
  assumes ans: "answers cohere k (map snd batch)"
    and dist: "distinct (map fst batch)"
    and bound: "\<forall>p\<in>set batch. fst p < length results"
  shows "\<exists>res'. embed_batch cohere k batch results = Inr res' \<and> length res' = length results \<and>
     (\<forall>m<length batch. res' ! fst (batch ! m) =
        (case embedding_at (cohere k (map snd batch)) m of
           Some v \<Rightarrow> Some v
         | None \<Rightarrow> results ! fst (batch ! m))) \<and>
     (\<forall>x. x \<notin> fst ` set batch \<longrightarrow> res' ! x = results ! x)"
proof (cases "cohere k (map snd batch)")
  case (Inl failure)
  with ans show ?thesis by (simp add: answers_def)
next
  case (Inr response)
  show ?thesis
  proof (cases response)
    case None
    with Inr show ?thesis by (simp add: embed_batch_def embedding_at_def)
  next
    case (Some es)
    with Inr ans have le: "length es \<le> length batch" by (simp add: answers_def)
    from scatter_spec [OF le dist bound]
    obtain res' where r: "scatter batch es results = Some res'" "length res' = length results"
      "\<forall>m<length es. res' ! fst (batch ! m) = Some (es ! m)"
      "\<forall>x. x \<notin> fst ` set (take (length es) batch) \<longrightarrow> res' ! x = results ! x"
      by blast
    have eb: "embed_batch cohere k batch results = Inr res'"
      using Inr Some r(1) by (simp add: embed_batch_def)
    have nth: "res' ! fst (batch ! m) =
        (case embedding_at (cohere k (map snd batch)) m of
           Some v \<Rightarrow> Some v
         | None \<Rightarrow> results ! fst (batch ! m))" if m: "m < length batch" for m
    proof (cases "m < length es")
      case True
      with r(3) Inr Some show ?thesis by (simp add: embedding_at_def)
    next
      case False
      then have "length es \<le> m" by simp
      with dist have "fst (batch ! m) \<notin> fst ` set (take (length es) batch)"
        using m by (rule distinct_fst_take)
      with r(4) have "res' ! fst (batch ! m) = results ! fst (batch ! m)" by blast
      with False Inr Some show ?thesis by (simp add: embedding_at_def)
    qed
    have frame: "\<forall>x. x \<notin> fst ` set batch \<longrightarrow> res' ! x = results ! x"
    proof (intro allI impI)
      fix x assume "x \<notin> fst ` set batch"
      moreover have "set (take (length es) batch) \<subseteq> set batch" by (rule set_take_subset)
      ultimately have "x \<notin> fst ` set (take (length es) batch)" by blast
      with r(4) show "res' ! x = results ! x" by blast
    qed
    show ?thesis using eb r(2) nth frame by blast
  qed
qed

lemma batch_loop_contract:
  assumes answered: "\<forall>k. k * MAX_BATCH_SIZE < length valid \<longrightarrow>
      answers cohere k (map snd (take MAX_BATCH_SIZE (drop (k * MAX_BATCH_SIZE) valid)))"
    and dist: "distinct (map fst valid)"
    and bound: "\<forall>p\<in>set valid. fst p < length results"
    and al: "MAX_BATCH_SIZE dvd i"
  shows "\<exists>res'. snd (batch_loop cohere valid i results) = Inr res' \<and>
     length res' = length results \<and>
     (\<forall>j. i \<le> j \<and> j < length valid \<longrightarrow>
        res' ! fst (valid ! j) =
          (case provider_embedding cohere (map snd valid) j of
             Some v \<Rightarrow> Some v
           | None \<Rightarrow> results ! fst (valid ! j))) \<and>
     (\<forall>x. x \<notin> fst ` set (drop i valid) \<longrightarrow> res' ! x = results ! x)"
  using bound al
proof (induction "length valid - i" arbitrary: i results rule: less_induct)
  case less
  let ?B = MAX_BATCH_SIZE
  let ?batch = "take ?B (drop i valid)"
  have Bpos: "0 < ?B" by (simp add: MAX_BATCH_SIZE_def)
  show ?case
  proof (cases "i < length valid")
    case False
    then show ?thesis by (auto simp: batch_loop_done)
  next
    case True
    from less.prems(2) obtain q where q: "i = ?B * q" by (auto simp: dvd_def)
    then have qi: "q * ?B = i" by (simp add: mult.commute)
    have iq: "i div ?B = q" using q Bpos by simp
    have "q * ?B < length valid" using True qi by simp
    with answered have "answers cohere q (map snd (take ?B (drop (q * ?B) valid)))" by blast
    then have ans: "answers cohere (i div ?B) (map snd ?batch)" by (simp only: qi iq)
    have "distinct (map fst ?batch)"
      using dist by (simp add: distinct_drop distinct_take flip: take_map drop_map)
    moreover have "\<forall>p\<in>set ?batch. fst p < length results"
      using less.prems(1) by (meson in_set_dropD in_set_takeD)
    ultimately obtain res1 where res1: "embed_batch cohere (i div ?B) ?batch results = Inr res1"
      "length res1 = length results"
      "\<forall>m<length ?batch. res1 ! fst (?batch ! m) =
         (case embedding_at (cohere (i div ?B) (map snd ?batch)) m of
            Some v \<Rightarrow> Some v
          | None \<Rightarrow> results ! fst (?batch ! m))"
      "\<forall>x. x \<notin> fst ` set ?batch \<longrightarrow> res1 ! x = results ! x"
      using embed_batch_spec [OF ans] by blast
    note unfold = batch_loop_step [OF True res1(1)]
    have dec: "length valid - (i + ?B) < length valid - i"
      using True Bpos by simp
    have bound1: "\<forall>p\<in>set valid. fst p < length res1"
      using less.prems(1) res1(2) by simp
    have al1: "?B dvd i + ?B" using less.prems(2) by simp
    from less.hyps [OF dec bound1 al1]
    obtain res' where res': "snd (batch_loop cohere valid (i + ?B) res1) = Inr res'"
      "length res' = length res1"
      "\<forall>j. i + ?B \<le> j \<and> j < length valid \<longrightarrow>
          res' ! fst (valid ! j) =
            (case provider_embedding cohere (map snd valid) j of
               Some v \<Rightarrow> Some v
             | None \<Rightarrow> res1 ! fst (valid ! j))"
      "\<forall>x. x \<notin> fst ` set (drop (i + ?B) valid) \<longrightarrow> res' ! x = res1 ! x"
      by blast
    have "q * ?B < length (map snd valid)" using qi True by simp
    from chunks_nth [OF Bpos this]
    have "chunks ?B (map snd valid) ! q = take ?B (drop (q * ?B) (map snd valid))" .
    then have chunk: "chunks ?B (map snd valid) ! q = map snd ?batch"
      using qi by (simp add: take_map drop_map)
    have early: "res' ! fst (valid ! j) =
        (case provider_embedding cohere (map snd valid) j of
           Some v \<Rightarrow> Some v
         | None \<Rightarrow> results ! fst (valid ! j))"
      if j: "i \<le> j" "j < length valid" "j < i + ?B" for j
    proof -
      have "j - i < length valid - i" "j - i < ?B" using j by arith+
      then have m: "j - i < length ?batch" by simp
      have nth: "?batch ! (j - i) = valid ! j" using j by simp
      have "fst (valid ! j) \<notin> fst ` set (drop (i + ?B) valid)"
        using dist j(3) j(2) by (rule distinct_fst_drop)
      then have "res' ! fst (valid ! j) = res1 ! fst (valid ! j)" using res'(4) by blast
      also have "\<dots> = (case embedding_at (cohere (i div ?B) (map snd ?batch)) (j - i) of
            Some v \<Rightarrow> Some v
          | None \<Rightarrow> results ! fst (valid ! j))"
      proof -
        from res1(3) m have "res1 ! fst (?batch ! (j - i)) =
          (case embedding_at (cohere (i div ?B) (map snd ?batch)) (j - i) of
             Some v \<Rightarrow> Some v
           | None \<Rightarrow> results ! fst (?batch ! (j - i)))"
          by blast
        then show ?thesis unfolding nth .
      qed
      finally have lhs: "res' ! fst (valid ! j) =
          (case embedding_at (cohere (i div ?B) (map snd ?batch)) (j - i) of
             Some v \<Rightarrow> Some v
           | None \<Rightarrow> results ! fst (valid ! j))" .
      have "?B * q \<le> j" "j < ?B * Suc q" using j q by simp_all
      then have jq: "j div ?B = q" by (rule div_nat_eqI)
      have "j mod ?B = j - ?B * (j div ?B)" by (simp only: minus_mult_div_eq_mod)
      then have jm: "j mod ?B = j - i" using jq q by simp
      have "provider_embedding cohere (map snd valid) j =
          embedding_at (cohere (i div ?B) (map snd ?batch)) (j - i)"
        unfolding provider_embedding_def jq jm chunk iq ..
      with lhs show ?thesis by simp
    qed
    have late: "res' ! fst (valid ! j) =
        (case provider_embedding cohere (map snd valid) j of
           Some v \<Rightarrow> Some v
         | None \<Rightarrow> results ! fst (valid ! j))"
      if j: "i + ?B \<le> j" "j < length valid" for j
    proof -
      have "?B \<le> j - i" "j - i < length (drop i valid)" using j by simp_all
      moreover have "distinct (map fst (drop i valid))"
        using dist by (simp add: distinct_drop flip: drop_map)
      ultimately have "fst (drop i valid ! (j - i)) \<notin> fst ` set ?batch"
        by (intro distinct_fst_take)
      moreover have "drop i valid ! (j - i) = valid ! j" using j by simp
      ultimately have "fst (valid ! j) \<notin> fst ` set ?batch" by simp
      with res1(4) have "res1 ! fst (valid ! j) = results ! fst (valid ! j)" by blast
      with res'(3) j show ?thesis by (simp split: option.splits)
    qed
    have all: "\<forall>j. i \<le> j \<and> j < length valid \<longrightarrow>
        res' ! fst (valid ! j) =
          (case provider_embedding cohere (map snd valid) j of
             Some v \<Rightarrow> Some v
           | None \<Rightarrow> results ! fst (valid ! j))"
    proof (intro allI impI)
      fix j assume j: "i \<le> j \<and> j < length valid"
      show "res' ! fst (valid ! j) =
          (case provider_embedding cohere (map snd valid) j of
             Some v \<Rightarrow> Some v
           | None \<Rightarrow> results ! fst (valid ! j))"
      proof (cases "j < i + ?B")
        case True
        with j early show ?thesis by blast
      next
        case False
        with j late show ?thesis by simp
      qed
    qed
    have frame: "\<forall>x. x \<notin> fst ` set (drop i valid) \<longrightarrow> res' ! x = results ! x"
    proof (intro allI impI)
      fix x assume x: "x \<notin> fst ` set (drop i valid)"
      have "set ?batch \<subseteq> set (drop i valid)" by (rule set_take_subset)
      with x have x1: "x \<notin> fst ` set ?batch" by blast
      have "drop (i + ?B) valid = drop ?B (drop i valid)" by (simp add: add.commute)
      then have "set (drop (i + ?B) valid) \<subseteq> set (drop i valid)"
        by (simp only: set_drop_subset)
      with x have "x \<notin> fst ` set (drop (i + ?B) valid)" by blast
      then have "res' ! x = res1 ! x" using res'(4) by blast
      with x1 res1(4) show "res' ! x = results ! x" by simp
    qed
    show ?thesis
      using unfold res'(1,2) res1(2) all frame by simp
  qed
qed

section \<open>Properties of the embedding functions\<close>

lemmas text_defs = preprocessText_def normalize_text_def js_def MIN_LENGTH_def user_mention_def
  channel_named_def channel_plain_def angle_url_def bare_url_def emoji_code_def space_run_def
  scheme_def run_then_def trim_def is_id_char_def is_emoji_char_def is_space_def not_gt_def

lemma trim_eq_Nil_iff: "trim t = [] \<longleftrightarrow> (\<forall>c\<in>set t. is_space c)"
proof
  assume "\<forall>c\<in>set t. is_space c"
  then have "dropWhile is_space t = []" by simp
  then show "trim t = []" unfolding trim_def by (simp only: rev.simps dropWhile.simps)
next
  assume "trim t = []"
  then have all: "\<forall>x\<in>set (dropWhile is_space t). is_space x" by (simp add: trim_def)
  have "dropWhile is_space t = []"
  proof (rule ccontr)
    assume ne: "dropWhile is_space t \<noteq> []"
    then have "\<not> is_space (hd (dropWhile is_space t))" by (rule hd_dropWhile)
    moreover have "hd (dropWhile is_space t) \<in> set (dropWhile is_space t)"
      using ne by (rule hd_in_set)
    ultimately show False using all by blast
  qed
  then show "\<forall>c\<in>set t. is_space c" by simp
qed

lemma is_blank_iff: "is_blank t \<longleftrightarrow> (\<forall>c\<in>set t. is_space c)"
  by (auto simp: is_blank_def trim_eq_Nil_iff)

lemma has_content_iff: "has_content t \<longleftrightarrow> (\<exists>c\<in>set t. \<not> is_space c)"
  by (auto simp: has_content_def trim_eq_Nil_iff)

lemma createEmbeddings_run:
  assumes "validTexts texts \<noteq> []"
  shows "createEmbeddings cohere texts =
    (fst (batch_loop cohere (validTexts texts) 0 (replicate (length texts) None)),
     case snd (batch_loop cohere (validTexts texts) 0 (replicate (length texts) None)) of
       Inl error \<Rightarrow> Inl error
     | Inr results \<Rightarrow> Inr (map (\<lambda>r. case r of None \<Rightarrow> zero_vector | Some v \<Rightarrow> v) results))"
proof -
  have "texts \<noteq> []" using assms by (auto simp: validTexts_def)
  with assms show ?thesis by (simp add: createEmbeddings_def Let_def)
qed

lemma createEmbeddings_no_run:
  assumes "validTexts texts = []"
  shows "createEmbeddings cohere texts = ([], Inr (map (\<lambda>_. zero_vector) texts))"
  using assms by (simp add: createEmbeddings_def Let_def)

text \<open>
  Claim C1: when the normalized form of a text is shorter than 10 code units,
  \<open>preprocessText\<close> returns the empty string; \<open>createEmbedding\<close> on an empty or
  whitespace-only string returns the all-zero vector of 1024 entries without calling the
  provider and without an error; so a too-short text is answered with the zero vector
  and never embedded.
\<close>

theorem short_text_is_skipped:
  "(length (normalize_text text) < 10 \<longrightarrow> preprocessText text = []) \<and>
   ((\<forall>c\<in>set t. is_space c) \<longrightarrow> createEmbedding cohere t = ([], Inr (Some zero_vector))) \<and>
   (length (normalize_text text) < 10 \<longrightarrow>
      createEmbedding cohere (preprocessText text) = ([], Inr (Some zero_vector))) \<and>
   length zero_vector = 1024 \<and> (\<forall>x\<in>set zero_vector. x = 0)"
  by (auto simp: preprocessText_def MIN_LENGTH_def createEmbedding_def is_blank_iff
      zero_vector_def EMBEDDING_DIMENSIONS_def)

theorem short_text_is_skipped_witness:
  "length (normalize_text (js ''hi <@U1>'')) < 10 \<and> preprocessText (js ''hi <@U1>'') = [] \<and>
   createEmbedding rate_limited_provider (preprocessText (js ''hi <@U1>'')) = ([], Inr (Some zero_vector)) \<and>
   createEmbedding rate_limited_provider (js ''  '') = ([], Inr (Some zero_vector))"
proof -
  have short: "length (normalize_text (js ''hi <@U1>'')) < 10"
    by (simp add: text_defs)
  have blank: "\<forall>c\<in>set (js ''  ''). is_space c"
    by (simp add: js_def is_space_def)
  show ?thesis
    using short blank
      short_text_is_skipped [of "js ''hi <@U1>''" "js ''  ''" rate_limited_provider]
    by blast
qed

text \<open>
  Claim C8: in every run of \<open>createEmbeddings\<close> the delays of 100 ms lie between
  consecutive provider calls only: the run starts with a provider call (if it has any
  event), every delay is followed by a further call, and the number of delays is the
  number of calls minus one (none for a single batch). A run that returns has made one
  call per batch of the non-blank texts.
\<close>

theorem delays_only_between_batches:
  "alternating (fst (createEmbeddings cohere texts)) \<and>
   (fst (createEmbeddings cohere texts) = [] \<or>
      (\<exists>batch tr. fst (createEmbeddings cohere texts) = Embed batch # tr)) \<and>
   length (delays (fst (createEmbeddings cohere texts))) =
     length (embed_calls (fst (createEmbeddings cohere texts))) - 1 \<and>
   (\<forall>d\<in>set (delays (fst (createEmbeddings cohere texts))). d = 100) \<and>
   (\<forall>rs. snd (createEmbeddings cohere texts) = Inr rs \<longrightarrow>
      embed_calls (fst (createEmbeddings cohere texts)) =
        chunks MAX_BATCH_SIZE (filter has_content texts))"
proof -
  let ?tr = "fst (createEmbeddings cohere texts)"
  have alt: "alternating ?tr"
  proof (cases "validTexts texts = []")
    case True
    then show ?thesis by (simp add: createEmbeddings_no_run)
  next
    case False
    then show ?thesis by (simp add: createEmbeddings_run batch_loop_alternating)
  qed
  have first: "?tr = [] \<or> (\<exists>batch tr. ?tr = Embed batch # tr)"
    using alternating_hd [OF alt] by blast
  have calls: "embed_calls ?tr = chunks MAX_BATCH_SIZE (filter has_content texts)"
    if "snd (createEmbeddings cohere texts) = Inr rs" for rs
  proof (cases "validTexts texts = []")
    case True
    then have "filter has_content texts = []" using map_snd_validTexts [of texts] by simp
    with True show ?thesis by (simp add: createEmbeddings_no_run chunks.simps)
  next
    case False
    let ?run = "batch_loop cohere (validTexts texts) 0 (replicate (length texts) None)"
    from that False obtain results where "snd ?run = Inr results"
      by (auto simp: createEmbeddings_run split: sum.splits)
    from batch_loop_calls [OF this] False show ?thesis
      by (simp add: createEmbeddings_run map_snd_validTexts)
  qed
  show ?thesis
    using alt first alternating_counts [OF alt] alternating_delays [OF alt] calls
    by (simp add: RATE_LIMIT_DELAY_MS_def)
qed

lemmas run_defs = createEmbeddings_def createEmbedding_def validTexts_def has_content_def is_blank_def
  trim_def is_space_def js_def batch_loop.simps embed_batch_def MAX_BATCH_SIZE_def
  RATE_LIMIT_DELAY_MS_def Let_def

lemma createEmbeddings_contract:
  assumes answered: "\<forall>k<length (chunks MAX_BATCH_SIZE (filter has_content texts)).
      answers cohere k (chunks MAX_BATCH_SIZE (filter has_content texts) ! k)"
  shows "\<exists>rs. snd (createEmbeddings cohere texts) = Inr rs \<and> length rs = length texts \<and>
    (\<forall>i<length texts. rs ! i =
       (if has_content (texts ! i)
        then (case provider_embedding cohere (filter has_content texts)
                     (length (filter has_content (take i texts))) of
                Some embedding \<Rightarrow> embedding
              | None \<Rightarrow> zero_vector)
        else zero_vector))"
proof (cases "validTexts texts = []")
  case True
  then have "filter has_content texts = []" using map_snd_validTexts [of texts] by simp
  then have "\<forall>i<length texts. \<not> has_content (texts ! i)"
    by (simp add: filter_empty_conv)
  with True show ?thesis by (simp add: createEmbeddings_no_run)
next
  case False
  let ?B = MAX_BATCH_SIZE
  let ?valid = "validTexts texts"
  let ?init = "replicate (length texts) (None :: vector option)"
  let ?fill = "\<lambda>r. case r of None \<Rightarrow> zero_vector | Some v \<Rightarrow> v"
  have Bpos: "0 < ?B" by (simp add: MAX_BATCH_SIZE_def)
  have bound: "\<forall>p\<in>set ?valid. fst p < length ?init"
    using validTexts_member [of _ _ texts] by auto
  have calls: "\<forall>k. k * ?B < length ?valid \<longrightarrow>
      answers cohere k (map snd (take ?B (drop (k * ?B) ?valid)))"
  proof (intro allI impI)
    fix k assume "k * ?B < length ?valid"
    then have k: "k * ?B < length (filter has_content texts)"
      using map_snd_validTexts [of texts] by (metis length_map)
    from chunks_nth [OF Bpos k]
    have "chunks ?B (filter has_content texts) ! k = map snd (take ?B (drop (k * ?B) ?valid))"
      by (simp add: take_map drop_map map_snd_validTexts [symmetric])
    moreover have "k < length (chunks ?B (filter has_content texts))"
      using Bpos k by (rule length_chunks)
    ultimately show "answers cohere k (map snd (take ?B (drop (k * ?B) ?valid)))"
      using answered by auto
  qed
  have "?B dvd 0" by simp
  from batch_loop_contract [OF calls distinct_validTexts bound this]
  obtain res' where res': "snd (batch_loop cohere ?valid 0 ?init) = Inr res'"
    "length res' = length ?init"
    "\<forall>j. 0 \<le> j \<and> j < length ?valid \<longrightarrow>
        res' ! fst (?valid ! j) =
          (case provider_embedding cohere (map snd ?valid) j of
             Some v \<Rightarrow> Some v
           | None \<Rightarrow> ?init ! fst (?valid ! j))"
    "\<forall>x. x \<notin> fst ` set (drop 0 ?valid) \<longrightarrow> res' ! x = ?init ! x"
    by blast
  have result: "snd (createEmbeddings cohere texts) = Inr (map ?fill res')"
    using False res'(1) by (simp add: createEmbeddings_run)
  have nth: "map ?fill res' ! i =
       (if has_content (texts ! i)
        then (case provider_embedding cohere (filter has_content texts)
                     (length (filter has_content (take i texts))) of
                Some embedding \<Rightarrow> embedding
              | None \<Rightarrow> zero_vector)
        else zero_vector)" if i: "i < length texts" for i
  proof (cases "has_content (texts ! i)")
    case True
    let ?j = "length (filter has_content (take i texts))"
    from validTexts_nth [OF i True] have j: "?j < length ?valid" "?valid ! ?j = (i, texts ! i)" .
    from res'(3) j(1) have "res' ! fst (?valid ! ?j) =
        (case provider_embedding cohere (map snd ?valid) ?j of
           Some v \<Rightarrow> Some v
         | None \<Rightarrow> ?init ! fst (?valid ! ?j))"
      by blast
    then have "res' ! i =
        (case provider_embedding cohere (map snd ?valid) ?j of
           Some v \<Rightarrow> Some v
         | None \<Rightarrow> ?init ! i)"
      unfolding j(2) fst_conv .
    then show ?thesis using True i res'(2)
      by (simp add: map_snd_validTexts split: option.splits)
  next
    case False
    have "i \<notin> fst ` set ?valid"
    proof
      assume "i \<in> fst ` set ?valid"
      then obtain tx where "(i, tx) \<in> set ?valid" by auto
      from validTexts_member [OF this] False show False by auto
    qed
    with res'(4) have "res' ! i = ?init ! i" by simp
    then show ?thesis using False i res'(2) by simp
  qed
  show ?thesis using result nth res'(2) by simp
qed

lemma contract_answers:
  assumes "\<forall>k ts. \<exists>es. cohere k ts = Inr (Some es) \<and> length es = length ts"
  shows "answers cohere k ts"
proof -
  from assms obtain es where "cohere k ts = Inr (Some es)" "length es = length ts" by blast
  then show ?thesis by (simp add: answers_def)
qed

lemma length_provider_contract:
  "\<forall>k ts. \<exists>es. length_provider k ts = Inr (Some es) \<and> length es = length ts"
  by (simp add: length_provider_def)

lemma chunks_one_more:
  assumes "0 < n"
  shows "chunks n (replicate (n + 1) x) = [replicate n x, [x]]"
proof -
  have "chunks n [x] = [[x]]"
    using assms by (subst chunks.simps) (simp add: chunks.simps)
  moreover have app: "replicate (n + 1) x = replicate n x @ [x]"
    by (simp add: replicate_append_same)
  moreover have "take n (replicate n x @ [x]) = replicate n x"
    and "drop n (replicate n x @ [x]) = [x]"
    by simp_all
  ultimately show ?thesis
    using assms unfolding app by (subst chunks.simps) simp
qed

theorem delays_only_between_batches_witness:
  "(\<exists>rs. snd (createEmbeddings length_provider many_texts) = Inr rs) \<and>
   embed_calls (fst (createEmbeddings length_provider many_texts)) =
     [replicate MAX_BATCH_SIZE (js ''a''), [js ''a'']] \<and>
   delays (fst (createEmbeddings length_provider many_texts)) = [100]"
proof -
  let ?tr = "fst (createEmbeddings length_provider many_texts)"
  have hc: "has_content (js ''a'')"
    by (simp add: has_content_def trim_def is_space_def js_def)
  then have flt: "filter has_content many_texts = many_texts"
    by (simp add: many_texts_def)
  have chunks: "chunks MAX_BATCH_SIZE many_texts = [replicate MAX_BATCH_SIZE (js ''a''), [js ''a'']]"
    unfolding many_texts_def by (rule chunks_one_more) (simp add: MAX_BATCH_SIZE_def)
  from createEmbeddings_contract [of many_texts length_provider]
    contract_answers [OF length_provider_contract]
  obtain rs where ret: "snd (createEmbeddings length_provider many_texts) = Inr rs"
    by blast
  note facts = delays_only_between_batches [of length_provider many_texts]
  from facts ret have calls: "embed_calls ?tr = chunks MAX_BATCH_SIZE (filter has_content many_texts)"
    by blast
  from facts have "length (delays ?tr) = length (embed_calls ?tr) - 1"
    and "\<forall>d\<in>set (delays ?tr). d = 100"
    by blast+
  then have "length (delays ?tr) = 1" and "\<forall>d\<in>set (delays ?tr). d = 100"
    using calls flt chunks by simp_all
  then have "delays ?tr = [100]"
    by (cases "delays ?tr") auto
  with ret calls flt chunks show ?thesis by simp
qed

lemma concat_chunks: "0 < n \<Longrightarrow> concat (chunks n xs) = xs"
proof (induction n xs rule: chunks.induct)
  case (1 n xs)
  show ?case
  proof (cases "xs = []")
    case True
    then show ?thesis by (simp add: chunks.simps)
  next
    case False
    with 1 have "concat (chunks n (drop n xs)) = drop n xs" by simp
    with False "1.prems" show ?thesis by (subst chunks.simps) simp
  qed
qed

text \<open>
  Claim C2, as amended: when every provider call of the run returns, and with no more
  embeddings than texts were submitted, \<open>createEmbeddings\<close> returns a list as long as
  its input; position \<open>i\<close> holds the embedding that the provider returned for
  \<open>texts[i]\<close> when that text has a non-whitespace code unit and the provider returned one
  for it, and the zero vector of 1024 entries otherwise: when the text is empty or
  whitespace only, and also when the response has no embeddings array or is too short
  to hold an embedding for it. The non-blank texts are submitted in their original
  order, in batches of at most 96.
\<close>

theorem createEmbeddings_scatters:
  assumes "\<forall>k<length (chunks MAX_BATCH_SIZE (filter has_content texts)).
      answers cohere k (chunks MAX_BATCH_SIZE (filter has_content texts) ! k)"
  shows "\<exists>rs. snd (createEmbeddings cohere texts) = Inr rs \<and> length rs = length texts \<and>
    (\<forall>i<length texts. rs ! i =
       (if has_content (texts ! i)
        then (case provider_embedding cohere (filter has_content texts)
                     (length (filter has_content (take i texts))) of
                Some embedding \<Rightarrow> embedding
              | None \<Rightarrow> zero_vector)
        else zero_vector)) \<and>
    length zero_vector = 1024 \<and> (\<forall>x\<in>set zero_vector. x = 0) \<and>
    (\<forall>t. has_content t \<longleftrightarrow> (\<exists>c\<in>set t. \<not> is_space c)) \<and>
    embed_calls (fst (createEmbeddings cohere texts)) =
      chunks MAX_BATCH_SIZE (filter has_content texts) \<and>
    (\<forall>batch\<in>set (chunks MAX_BATCH_SIZE (filter has_content texts)).
       batch \<noteq> [] \<and> length batch \<le> 96) \<and>
    concat (chunks MAX_BATCH_SIZE (filter has_content texts)) = filter has_content texts"
proof -
  from createEmbeddings_contract [OF assms]
  obtain rs where rs: "snd (createEmbeddings cohere texts) = Inr rs" "length rs = length texts"
    "\<forall>i<length texts. rs ! i =
       (if has_content (texts ! i)
        then (case provider_embedding cohere (filter has_content texts)
                     (length (filter has_content (take i texts))) of
                Some embedding \<Rightarrow> embedding
              | None \<Rightarrow> zero_vector)
        else zero_vector)"
    by blast
  have zero: "length zero_vector = 1024" "\<forall>x\<in>set zero_vector. x = 0"
    by (simp_all add: zero_vector_def EMBEDDING_DIMENSIONS_def)
  have calls: "embed_calls (fst (createEmbeddings cohere texts)) =
      chunks MAX_BATCH_SIZE (filter has_content texts)"
  proof (cases "validTexts texts = []")
    case True
    then have "filter has_content texts = []" using map_snd_validTexts [of texts] by simp
    with True show ?thesis by (simp add: createEmbeddings_no_run chunks.simps)
  next
    case False
    with rs(1) obtain results where
      "snd (batch_loop cohere (validTexts texts) 0 (replicate (length texts) None)) = Inr results"
      by (auto simp: createEmbeddings_run split: sum.splits)
    from batch_loop_calls [OF this] False show ?thesis
      by (simp add: createEmbeddings_run map_snd_validTexts)
  qed
  have sizes: "\<forall>batch\<in>set (chunks MAX_BATCH_SIZE (filter has_content texts)).
       batch \<noteq> [] \<and> length batch \<le> 96"
    using chunks_length_le [of _ MAX_BATCH_SIZE] by (auto simp: MAX_BATCH_SIZE_def)
  have order: "concat (chunks MAX_BATCH_SIZE (filter has_content texts)) = filter has_content texts"
    by (rule concat_chunks) (simp add: MAX_BATCH_SIZE_def)
  show ?thesis
    using rs zero calls sizes order has_content_iff by blast
qed

theorem createEmbeddings_scatters_witness:
  "answers length_provider 0 [js ''hello'', js ''world!''] \<and>
   chunks MAX_BATCH_SIZE (filter has_content [js ''hello'', js '' '', [], js ''world!'']) =
     [[js ''hello'', js ''world!'']] \<and>
   createEmbeddings length_provider [js ''hello'', js '' '', [], js ''world!''] =
     ([Embed [js ''hello'', js ''world!'']], Inr [[5], zero_vector, zero_vector, [6]]) \<and>
   provider_embedding length_provider [js ''hello'', js ''world!''] 1 = Some [6] \<and>
   length zero_vector = 1024"
proof -
  let ?texts = "[js ''hello'', js '' '', [], js ''world!'']"
  have flt: "filter has_content ?texts = [js ''hello'', js ''world!'']"
    by (simp add: has_content_def trim_def is_space_def js_def)
  have chunks: "chunks MAX_BATCH_SIZE [js ''hello'', js ''world!''] = [[js ''hello'', js ''world!'']]"
    by (simp add: chunks.simps MAX_BATCH_SIZE_def)
  have ans: "answers length_provider 0 [js ''hello'', js ''world!'']"
    by (simp add: answers_def length_provider_def)
  then have hyp: "\<forall>k<length (chunks MAX_BATCH_SIZE (filter has_content ?texts)).
      answers length_provider k (chunks MAX_BATCH_SIZE (filter has_content ?texts) ! k)"
    unfolding flt chunks by simp
  have emb: "provider_embedding length_provider [js ''hello'', js ''world!''] 1 = Some [6]"
    by (simp add: provider_embedding_def embedding_at_def chunks length_provider_def)
       (simp add: MAX_BATCH_SIZE_def js_def)
  from createEmbeddings_scatters [OF hyp]
  obtain rs where rs: "snd (createEmbeddings length_provider ?texts) = Inr rs"
    "length rs = length ?texts" "length zero_vector = 1024"
    by blast
  have run: "createEmbeddings length_provider ?texts =
     ([Embed [js ''hello'', js ''world!'']], Inr [[5], zero_vector, zero_vector, [6]])"
    by (simp add: run_defs length_provider_def)
  show ?thesis using ans flt chunks run emb rs(3) by simp
qed

text \<open>
  Claim C2 as stated fails: a text with content is answered with the zero vector when
  the response has no embeddings array, or fewer embeddings than texts.
\<close>

theorem missing_embedding_is_zero_filled:
  "has_content (js ''hello'') \<and> has_content (js ''world!'') \<and>
   createEmbeddings silent_provider [js ''hello''] = ([Embed [js ''hello'']], Inr [zero_vector]) \<and>
   createEmbeddings one_embedding_provider [js ''hello'', js ''world!''] =
     ([Embed [js ''hello'', js ''world!'']], Inr [[5], zero_vector]) \<and>
   zero_vector = replicate 1024 0"
  by (simp add: run_defs silent_provider_def one_embedding_provider_def zero_vector_def
        EMBEDDING_DIMENSIONS_def)

text \<open>
  Claim C5, as amended: when a provider call of \<open>createEmbedding\<close> or \<open>createEmbeddings\<close>
  fails, the whole operation throws and returns no results; the error thrown is a plain
  \<open>Error\<close> whose message is \<open>Embedding failed: \<close> or \<open>Batch embedding failed: \<close>
  followed by the message of the provider's error. It carries no error kind.
\<close>

theorem provider_failure_aborts:
  "(\<not> is_blank t \<and> cohere 0 [t] = Inl failure \<longrightarrow>
      createEmbedding cohere t =
        ([Embed [t]], Inl (Error (js ''Embedding failed: '' @ message failure)))) \<and>
   (m < length (embed_calls (fst (createEmbeddings cohere texts))) \<and>
    cohere m (embed_calls (fst (createEmbeddings cohere texts)) ! m) = Inl failure \<longrightarrow>
      snd (createEmbeddings cohere texts) =
        Inl (Error (js ''Batch embedding failed: '' @ message failure)))"
proof (intro conjI impI)
  assume "\<not> is_blank t \<and> cohere 0 [t] = Inl failure"
  then show "createEmbedding cohere t =
        ([Embed [t]], Inl (Error (js ''Embedding failed: '' @ message failure)))"
    by (simp add: createEmbedding_def)
next
  let ?tr = "fst (createEmbeddings cohere texts)"
  assume a: "m < length (embed_calls ?tr) \<and> cohere m (embed_calls ?tr ! m) = Inl failure"
  show "snd (createEmbeddings cohere texts) =
        Inl (Error (js ''Batch embedding failed: '' @ message failure))"
  proof (cases "validTexts texts = []")
    case True
    with a show ?thesis by (simp add: createEmbeddings_no_run)
  next
    case False
    let ?run = "batch_loop cohere (validTexts texts) 0 (replicate (length texts) None)"
    from a False have "m < length (embed_calls (fst ?run))"
      and "cohere (0 div MAX_BATCH_SIZE + m) (embed_calls (fst ?run) ! m) = Inl failure"
      by (simp_all add: createEmbeddings_run)
    from batch_loop_failure [OF this] False show ?thesis
      by (simp add: createEmbeddings_run)
  qed
qed

lemma embed_batch_answered:
  assumes "cohere k (map snd batch) = Inr (Some es)" "length es = length batch"
    "distinct (map fst batch)" "\<forall>p\<in>set batch. fst p < length results"
  shows "\<exists>results'. embed_batch cohere k batch results = Inr results'"
proof -
  from assms(2) have "length es \<le> length batch" by simp
  from scatter_spec [OF this assms(3,4)] assms(1) show ?thesis
    by (auto simp: embed_batch_def)
qed

theorem provider_failure_aborts_witness:
  "embed_calls (fst (createEmbeddings second_call_fails many_texts)) =
     [replicate MAX_BATCH_SIZE (js ''a''), [js ''a'']] \<and>
   second_call_fails 0 (replicate MAX_BATCH_SIZE (js ''a'')) =
     Inr (Some (replicate MAX_BATCH_SIZE [1])) \<and>
   second_call_fails 1 [js ''a''] =
     Inl \<lparr>failure_kind = RateLimited, message = js ''request failed''\<rparr> \<and>
   snd (createEmbeddings second_call_fails many_texts) =
     Inl (Error (js ''Batch embedding failed: request failed'')) \<and>
   createEmbedding rate_limited_provider (js ''hello'') =
     ([Embed [js ''hello'']], Inl (Error (js ''Embedding failed: request failed'')))"
proof -
  let ?B = MAX_BATCH_SIZE
  let ?valid = "validTexts many_texts"
  let ?init = "replicate (length many_texts) (None :: vector option)"
  let ?failure = "\<lparr>failure_kind = RateLimited, message = js ''request failed''\<rparr>"
  have Bpos: "0 < ?B" by (simp add: MAX_BATCH_SIZE_def)
  have hc: "has_content (js ''a'')"
    by (simp add: has_content_def trim_def is_space_def js_def)
  then have flt: "filter has_content many_texts = many_texts"
    by (simp add: many_texts_def)
  then have texts: "map snd ?valid = replicate (?B + 1) (js ''a'')"
    by (simp add: map_snd_validTexts many_texts_def)
  then have len: "length ?valid = ?B + 1"
    by (metis length_map length_replicate)
  then have ne: "?valid \<noteq> []" by auto
  have b0: "map snd (take ?B (drop 0 ?valid)) = replicate ?B (js ''a'')"
    using texts by (simp add: take_map [symmetric] del: replicate.simps replicate_Suc)
  have b1: "map snd (take ?B (drop ?B ?valid)) = [js ''a'']"
  proof -
    have "map snd (take ?B (drop ?B ?valid)) = take ?B (drop ?B (map snd ?valid))"
      by (simp add: take_map drop_map)
    also have "\<dots> = replicate (Suc 0) (js ''a'')"
      unfolding texts using Bpos by (simp del: replicate.simps replicate_Suc)
    finally show ?thesis by simp
  qed
  have call0: "second_call_fails (0 div ?B) (map snd (take ?B (drop 0 ?valid))) =
      Inr (Some (replicate ?B [1]))"
    unfolding b0 by (simp add: second_call_fails_def length_provider_def js_def)
  have "\<exists>results'. embed_batch second_call_fails (0 div ?B) (take ?B (drop 0 ?valid)) ?init = Inr results'"
  proof (rule embed_batch_answered [where cohere = second_call_fails and k = "0 div ?B"
        and es = "replicate ?B [1]", OF call0])
    show "length (replicate ?B [1::real]) = length (take ?B (drop 0 ?valid))"
      using len by simp
    show "distinct (map fst (take ?B (drop 0 ?valid)))"
      using distinct_validTexts [of many_texts] by (simp add: take_map [symmetric] distinct_take)
    show "\<forall>p\<in>set (take ?B (drop 0 ?valid)). fst p < length ?init"
      using validTexts_member [of _ _ many_texts] by (auto dest!: in_set_takeD)
  qed
  then obtain results' where
    eb0: "embed_batch second_call_fails (0 div ?B) (take ?B (drop 0 ?valid)) ?init = Inr results'"
    by blast
  have call1: "second_call_fails ((0 + ?B) div ?B) (map snd (take ?B (drop (0 + ?B) ?valid))) = Inl ?failure"
    using Bpos by (simp add: second_call_fails_def)
  then have eb1: "embed_batch second_call_fails ((0 + ?B) div ?B) (take ?B (drop (0 + ?B) ?valid)) results' =
      Inl (Error (js ''Batch embedding failed: request failed''))"
    by (simp add: embed_batch_def js_def)
  have lt0: "0 < length ?valid" and lt1: "0 + ?B < length ?valid" using len by simp_all
  have run: "batch_loop second_call_fails ?valid 0 ?init =
      ([Embed (replicate ?B (js ''a'')), Delay RATE_LIMIT_DELAY_MS, Embed [js ''a'']],
       Inl (Error (js ''Batch embedding failed: request failed'')))"
    using batch_loop_step [OF lt0 eb0] batch_loop_fail [OF lt1 eb1] lt1 b0 b1
    by (simp del: replicate.simps replicate_Suc)
  then have calls: "embed_calls (fst (createEmbeddings second_call_fails many_texts)) =
      [replicate ?B (js ''a''), [js ''a'']]"
    and result: "snd (createEmbeddings second_call_fails many_texts) =
      Inl (Error (js ''Batch embedding failed: request failed''))"
    using ne by (simp_all add: createEmbeddings_run)
  have c0: "second_call_fails 0 (replicate ?B (js ''a'')) = Inr (Some (replicate ?B [1]))"
    using call0 b0 by simp
  have c1: "second_call_fails 1 [js ''a''] = Inl ?failure"
    by (simp add: second_call_fails_def)
  have single: "\<not> is_blank (js ''hello'')" "rate_limited_provider 0 [js ''hello''] = Inl ?failure"
    by (simp_all add: is_blank_def trim_def is_space_def js_def rate_limited_provider_def)
  have msg: "js ''Embedding failed: '' @ message ?failure = js ''Embedding failed: request failed''"
    "js ''Batch embedding failed: '' @ message ?failure = js ''Batch embedding failed: request failed''"
    by (simp_all add: js_def)
  from provider_failure_aborts [where t = "js ''hello''" and cohere = rate_limited_provider
      and failure = ?failure]
    provider_failure_aborts [where cohere = second_call_fails and failure = ?failure and m = 1
      and texts = many_texts]
    calls c0 c1 single msg
  show ?thesis by simp
qed

text \<open>
  Claim C5 as stated fails: a rate-limit failure and a malformed-input failure with the
  same message make both functions throw the very same error.
\<close>

theorem error_kind_is_lost:
  "failure_kind \<lparr>failure_kind = RateLimited, message = js ''request failed''\<rparr> \<noteq>
     failure_kind \<lparr>failure_kind = MalformedInput, message = js ''request failed''\<rparr> \<and>
   rate_limited_provider 0 [js ''hello''] =
     Inl \<lparr>failure_kind = RateLimited, message = js ''request failed''\<rparr> \<and>
   malformed_input_provider 0 [js ''hello''] =
     Inl \<lparr>failure_kind = MalformedInput, message = js ''request failed''\<rparr> \<and>
   snd (createEmbedding rate_limited_provider (js ''hello'')) =
     Inl (Error (js ''Embedding failed: request failed'')) \<and>
   snd (createEmbedding malformed_input_provider (js ''hello'')) =
     Inl (Error (js ''Embedding failed: request failed'')) \<and>
   snd (createEmbeddings rate_limited_provider [js ''hello'']) =
     Inl (Error (js ''Batch embedding failed: request failed'')) \<and>
   snd (createEmbeddings malformed_input_provider [js ''hello'']) =
     Inl (Error (js ''Batch embedding failed: request failed''))"
  by (simp add: run_defs rate_limited_provider_def malformed_input_provider_def)

section \<open>Properties of the tool\<close>

text \<open>
  Claim C6: when the search restricted to a non-empty channel filter returns no result,
  \<open>retrieve\<close> is called a second time with the same query, limit and minimum score and
  no channel filter; when that call returns results, the string returned says that
  there are no results in the channel and that the messages found are in other
  channels.
\<close>

theorem fallback_is_reported:
  assumes "channel_filter findChannel args = Inr (Some f)" and "f \<noteq> []"
    and "retrieve (clean_query (args_query args))
           \<lparr>limit = limit_of args, channelName = Some f, minScore = 3 / 10\<rparr> = Inr []"
  shows "fst (search_knowledge_base findChannel retrieve args) =
           [(clean_query (args_query args),
             \<lparr>limit = limit_of args, channelName = Some f, minScore = 3 / 10\<rparr>),
            (clean_query (args_query args),
             \<lparr>limit = limit_of args, channelName = None, minScore = 3 / 10\<rparr>)] \<and>
         (\<forall>rs. retrieve (clean_query (args_query args))
                 \<lparr>limit = limit_of args, channelName = None, minScore = 3 / 10\<rparr> = Inr rs \<and>
               rs \<noteq> [] \<longrightarrow>
            snd (search_knowledge_base findChannel retrieve args) =
              js ''No results in #'' @ f @ js '', but found '' @ show_nat (length rs) @
              js '' messages in other channels:'' @ [10, 10] @ format_results rs)"
  using assms
  by (auto simp: search_knowledge_base_def Let_def other_channels_payload_def
      split: sum.splits)

theorem fallback_is_reported_witness:
  "channel_filter no_channel_found eng_search = Inr (Some (js ''eng'')) \<and>
   other_channel_retriever (clean_query (args_query eng_search))
     \<lparr>limit = limit_of eng_search, channelName = Some (js ''eng''), minScore = 3 / 10\<rparr> = Inr [] \<and>
   other_channel_retriever (clean_query (args_query eng_search))
     \<lparr>limit = limit_of eng_search, channelName = None, minScore = 3 / 10\<rparr> =
     Inr [\<lparr>formatted = js ''[#ops] bob: we chose Redis'', score = 57 / 100\<rparr>] \<and>
   search_knowledge_base no_channel_found other_channel_retriever eng_search =
     ([(js ''database decision'', \<lparr>limit = 10, channelName = Some (js ''eng''), minScore = 3 / 10\<rparr>),
       (js ''database decision'', \<lparr>limit = 10, channelName = None, minScore = 3 / 10\<rparr>)],
      js ''No results in #eng, but found 1 messages in other channels:'' @ [10, 10] @
      js ''1. [#ops] bob: we chose Redis (relevance: 57%)'')"
proof -
  let ?rs = "[\<lparr>formatted = js ''[#ops] bob: we chose Redis'', score = 57 / 100\<rparr>]"
  have f: "channel_filter no_channel_found eng_search = Inr (Some (js ''eng''))"
    by (simp add: channel_filter_def eng_search_def clean_channel_name_def strip_hash_def
        channel_named_def channel_plain_def run_then_def trim_def is_space_def is_id_char_def
        not_gt_def js_def)
  have ne: "js ''eng'' \<noteq> []" by (simp add: js_def)
  have q: "clean_query (args_query eng_search) = js ''database decision''"
    by (simp add: clean_query_def eng_search_def angle_url_def user_mention_def
        channel_named_def channel_plain_def run_then_def trim_def is_space_def is_id_char_def
        not_gt_def scheme_def js_def)
  have l: "limit_of eng_search = 10" by (simp add: limit_of_def eng_search_def)
  have r1: "other_channel_retriever (clean_query (args_query eng_search))
     \<lparr>limit = limit_of eng_search, channelName = Some (js ''eng''), minScore = 3 / 10\<rparr> = Inr []"
    by (simp add: other_channel_retriever_def)
  have r2: "other_channel_retriever (clean_query (args_query eng_search))
     \<lparr>limit = limit_of eng_search, channelName = None, minScore = 3 / 10\<rparr> = Inr ?rs"
    by (simp add: other_channel_retriever_def)
  have fmt: "js ''No results in #'' @ js ''eng'' @ js '', but found '' @ show_nat (length ?rs) @
              js '' messages in other channels:'' @ [10, 10] @ format_results ?rs =
      js ''No results in #eng, but found 1 messages in other channels:'' @ [10, 10] @
      js ''1. [#ops] bob: we chose Redis (relevance: 57%)''"
    by (simp add: format_results_def show_nat.simps toFixed0_def js_def)
  from fallback_is_reported [where retrieve = other_channel_retriever, OF f ne r1] r2
  have "fst (search_knowledge_base no_channel_found other_channel_retriever eng_search) =
           [(clean_query (args_query eng_search),
             \<lparr>limit = limit_of eng_search, channelName = Some (js ''eng''), minScore = 3 / 10\<rparr>),
            (clean_query (args_query eng_search),
             \<lparr>limit = limit_of eng_search, channelName = None, minScore = 3 / 10\<rparr>)]"
    and "snd (search_knowledge_base no_channel_found other_channel_retriever eng_search) =
              js ''No results in #'' @ js ''eng'' @ js '', but found '' @ show_nat (length ?rs) @
              js '' messages in other channels:'' @ [10, 10] @ format_results ?rs"
    by blast+
  then have "search_knowledge_base no_channel_found other_channel_retriever eng_search =
     ([(js ''database decision'', \<lparr>limit = 10, channelName = Some (js ''eng''), minScore = 3 / 10\<rparr>),
       (js ''database decision'', \<lparr>limit = 10, channelName = None, minScore = 3 / 10\<rparr>)],
      js ''No results in #eng, but found 1 messages in other channels:'' @ [10, 10] @
      js ''1. [#ops] bob: we chose Redis (relevance: 57%)'')"
    unfolding fmt q l by (simp add: prod_eq_iff)
  with f r1 r2 show ?thesis by blast
qed

section \<open>Properties of preprocessText\<close>

declare replace_all.simps [simp del]

lemma user_mention_id_token: "user_mention = id_token 64"
  by (rule ext) (simp add: user_mention_def id_token_def js_def)

lemma channel_plain_id_token: "channel_plain = id_token 35"
  by (rule ext) (simp add: channel_plain_def id_token_def js_def)

lemma has_match_iff: "has_match m s \<longleftrightarrow> (\<exists>pre u. s = pre @ u \<and> matches_at m u)"
proof (induction s)
  case Nil
  then show ?case by simp
next
  case (Cons c cs)
  show ?case
  proof
    assume "has_match m (c # cs)"
    then consider "matches_at m (c # cs)" | "has_match m cs" by auto
    then show "\<exists>pre u. c # cs = pre @ u \<and> matches_at m u"
    proof cases
      case 1
      then have "c # cs = [] @ (c # cs) \<and> matches_at m (c # cs)" by simp
      then show ?thesis by blast
    next
      case 2
      with Cons.IH obtain pre u where "cs = pre @ u" "matches_at m u" by blast
      then have "c # cs = (c # pre) @ u \<and> matches_at m u" by simp
      then show ?thesis by blast
    qed
  next
    assume "\<exists>pre u. c # cs = pre @ u \<and> matches_at m u"
    then obtain pre u where pu: "c # cs = pre @ u" "matches_at m u" by blast
    show "has_match m (c # cs)"
    proof (cases pre)
      case Nil
      with pu have "matches_at m (c # cs)" by simp
      then show ?thesis by simp
    next
      case (Cons a pre')
      with pu have "cs = pre' @ u" by simp
      with pu(2) Cons.IH show ?thesis by auto
    qed
  qed
qed

lemma replace_all_no_match:
  "\<not> has_match m s \<Longrightarrow> replace_all m r s = s"
  by (induction s) (auto simp: matches_at_def replace_all.simps split: option.splits)

lemma replace_all_copy:
  "m (c # cs) = None \<Longrightarrow> replace_all m r (c # cs) = c # replace_all m r cs"
  by (simp add: replace_all.simps)

lemma replace_all_hit:
  "m (c # cs) = Some (n, cap) \<Longrightarrow> 0 < n \<Longrightarrow>
   replace_all m r (c # cs) = r cap @ replace_all m r (drop n (c # cs))"
  by (simp add: replace_all.simps)

lemma set_replace_all:
  assumes "m [] = None" and pos: "\<And>u n cap. m u = Some (n, cap) \<Longrightarrow> 0 < n"
  shows "set (replace_all m (\<lambda>_. rho) s) \<subseteq> set s \<union> set rho"
proof (induction "length s" arbitrary: s rule: less_induct)
  case less
  show ?case
  proof (cases s)
    case Nil
    with assms(1) show ?thesis by (simp add: replace_all.simps)
  next
    case (Cons c cs)
    show ?thesis
    proof (cases "m (c # cs)")
      case None
      have "set (replace_all m (\<lambda>_. rho) cs) \<subseteq> set cs \<union> set rho"
        using less Cons by simp
      with None Cons show ?thesis by (auto simp: replace_all_copy)
    next
      case (Some a)
      obtain n cap where a: "a = (n, cap)" by (cases a)
      with Some pos have n: "0 < n" by blast
      have "length (drop n (c # cs)) < length s" using n Cons by simp
      from less [OF this]
      have "set (replace_all m (\<lambda>_. rho) (drop n (c # cs))) \<subseteq> set (drop n (c # cs)) \<union> set rho" .
      moreover have "set (drop n (c # cs)) \<subseteq> set (c # cs)" by (rule set_drop_subset)
      ultimately have "set (replace_all m (\<lambda>_. rho) (drop n (c # cs))) \<subseteq> set (c # cs) \<union> set rho"
        by blast
      moreover have "replace_all m (\<lambda>_. rho) (c # cs) = rho @ replace_all m (\<lambda>_. rho) (drop n (c # cs))"
        using Some a n by (simp only: replace_all_hit)
      ultimately show ?thesis using Cons by auto
    qed
  qed
qed

lemma space_run_Nil: "space_run [] = None"
  by (simp add: space_run_def)

lemma space_run_pos: "space_run u = Some (n, cap) \<Longrightarrow> 0 < n"
  by (auto simp: space_run_def Let_def split: if_splits)

lemma collapse_Nil: "replace_all space_run (\<lambda>_. js '' '') [] = []"
  by (simp add: space_run_def replace_all.simps)

lemma collapse_space:
  assumes "is_space c"
  shows "replace_all space_run (\<lambda>_. js '' '') (c # cs) =
         32 # replace_all space_run (\<lambda>_. js '' '') (dropWhile is_space cs)"
proof -
  have "space_run (c # cs) = Some (Suc (length (takeWhile is_space cs)), [])"
    using assms by (simp add: space_run_def)
  moreover have "drop (length (takeWhile is_space cs)) cs = dropWhile is_space cs"
    by (simp add: dropWhile_eq_drop)
  ultimately show ?thesis by (simp add: js_def replace_all.simps)
qed

lemma collapse_other:
  assumes "\<not> is_space c"
  shows "replace_all space_run (\<lambda>_. js '' '') (c # cs) =
         c # replace_all space_run (\<lambda>_. js '' '') cs"
  using assms by (simp add: space_run_def replace_all.simps)

lemma no_space_run_Cons:
  "\<not> is_space c \<Longrightarrow> no_space_run cs \<Longrightarrow> no_space_run (c # cs)"
  by (cases cs) simp_all

lemma collapse_no_space_run:
  "no_space_run (replace_all space_run (\<lambda>_. js '' '') s) \<and>
   (\<forall>c\<in>set (replace_all space_run (\<lambda>_. js '' '') s). is_space c \<longrightarrow> c = 32)"
proof (induction "length s" arbitrary: s rule: less_induct)
  case less
  let ?R = "replace_all space_run (\<lambda>_. js '' '')"
  show ?case
  proof (cases s)
    case Nil
    then show ?thesis by (simp add: collapse_Nil)
  next
    case (Cons c cs)
    show ?thesis
    proof (cases "is_space c")
      case False
      have "length cs < length s" using Cons by simp
      from less [OF this]
      have "no_space_run (?R cs) \<and> (\<forall>c\<in>set (?R cs). is_space c \<longrightarrow> c = 32)" .
      with False Cons show ?thesis
        by (simp add: collapse_other no_space_run_Cons)
    next
      case True
      let ?u = "dropWhile is_space cs"
      have "length ?u < length s" using Cons
        by (simp add: le_imp_less_Suc length_dropWhile_le)
      from less [OF this]
      have IH: "no_space_run (?R ?u)" "\<forall>c\<in>set (?R ?u). is_space c \<longrightarrow> c = 32" by blast+
      have "no_space_run (32 # ?R ?u)"
      proof (cases ?u)
        case Nil
        have "no_space_run (32 # replace_all space_run (\<lambda>_. js '' '') [])"
          by (simp add: collapse_Nil)
        then show ?thesis by (simp only: Nil)
      next
        case (Cons c' u')
        then have "\<not> is_space c'" using hd_dropWhile [of is_space cs] by auto
        with Cons IH(1) show ?thesis by (simp add: collapse_other)
      qed
      with True Cons IH(2) show ?thesis by (simp add: collapse_space)
    qed
  qed
qed

lemma trim_decompose:
  "\<exists>pre post. s = pre @ trim s @ post \<and> (\<forall>c\<in>set pre. is_space c) \<and> (\<forall>c\<in>set post. is_space c)"
proof -
  let ?y = "dropWhile is_space s"
  have "s = takeWhile is_space s @ ?y" by simp
  moreover have "rev (rev ?y) = rev (takeWhile is_space (rev ?y) @ dropWhile is_space (rev ?y))"
    by (simp only: takeWhile_dropWhile_id)
  then have "?y = rev (dropWhile is_space (rev ?y)) @ rev (takeWhile is_space (rev ?y))"
    by (simp only: rev_rev_ident rev_append)
  ultimately have "s = takeWhile is_space s @ trim s @ rev (takeWhile is_space (rev ?y))"
    by (simp add: trim_def)
  moreover have "\<forall>c\<in>set (takeWhile is_space s). is_space c"
    by (auto dest: set_takeWhileD)
  moreover have "\<forall>c\<in>set (rev (takeWhile is_space (rev ?y))). is_space c"
    by (auto dest: set_takeWhileD)
  ultimately show ?thesis by blast
qed

lemma no_space_run_tl: "no_space_run (c # cs) \<Longrightarrow> no_space_run cs"
  by (cases cs) simp_all

lemma no_space_run_append:
  "no_space_run (xs @ ys) \<Longrightarrow> no_space_run xs \<and> no_space_run ys"
proof (induction xs)
  case Nil
  then show ?case by simp
next
  case (Cons c xs)
  from Cons.prems have "no_space_run (xs @ ys)" by (simp add: no_space_run_tl)
  with Cons.IH have IH: "no_space_run xs" "no_space_run ys" by simp_all
  have "no_space_run (c # xs)"
  proof (cases xs)
    case Nil
    then show ?thesis by simp
  next
    case (Cons c' xs')
    with Cons.prems IH(1) show ?thesis by simp
  qed
  with IH(2) show ?case by simp
qed

lemma trim_ends:
  assumes "trim s \<noteq> []"
  shows "\<not> is_space (hd (trim s)) \<and> \<not> is_space (last (trim s))"
proof -
  let ?y = "dropWhile is_space s"
  let ?z = "dropWhile is_space (rev ?y)"
  have z: "?z \<noteq> []" using assms by (simp add: trim_def)
  have y: "?y \<noteq> []"
  proof
    assume e: "?y = []"
    have "?z = []" unfolding e by simp
    with z show False by contradiction
  qed
  have "last (trim s) = hd ?z" using z by (simp add: trim_def last_rev)
  moreover have "\<not> is_space (hd ?z)" using z by (rule hd_dropWhile)
  moreover have "hd (trim s) = last ?z" using z by (simp add: trim_def hd_rev)
  moreover have "last ?z = last (rev ?y)"
  proof -
    have "last (takeWhile is_space (rev ?y) @ ?z) = last ?z" using z by (rule last_appendR)
    then show ?thesis by (simp only: takeWhile_dropWhile_id)
  qed
  moreover have "last (rev ?y) = hd ?y" using y by (simp add: last_rev)
  moreover have "\<not> is_space (hd ?y)" using y by (rule hd_dropWhile)
  ultimately show ?thesis by simp
qed

lemma trim_fixed:
  assumes "t = [] \<or> (\<not> is_space (hd t) \<and> \<not> is_space (last t))"
  shows "trim t = t"
proof (cases "t = []")
  case True
  then show ?thesis by (simp add: trim_def)
next
  case False
  with assms have h: "\<not> is_space (hd t)" and l: "\<not> is_space (last t)" by blast+
  from h have "dropWhile is_space t = t" by (simp only: dropWhile_eq_self_iff) simp
  moreover have "hd (rev t) = last t" by (rule hd_rev)
  with l have "dropWhile is_space (rev t) = rev t" by (simp only: dropWhile_eq_self_iff) simp
  ultimately show ?thesis by (simp only: trim_def rev_rev_ident)
qed

lemma collapse_fixed:
  "no_space_run t \<Longrightarrow> \<forall>c\<in>set t. is_space c \<longrightarrow> c = 32 \<Longrightarrow>
   replace_all space_run (\<lambda>_. js '' '') t = t"
proof (induction t)
  case Nil
  show ?case by (rule collapse_Nil)
next
  case (Cons c cs)
  let ?R = "replace_all space_run (\<lambda>_. js '' '')"
  have "no_space_run cs" using Cons.prems(1) by (rule no_space_run_tl)
  moreover have "\<forall>c\<in>set cs. is_space c \<longrightarrow> c = 32" using Cons.prems(2) by simp
  ultimately have IH: "?R cs = cs" by (rule Cons.IH)
  show ?case
  proof (cases "is_space c")
    case False
    then have "?R (c # cs) = c # ?R cs" by (rule collapse_other)
    with IH show ?thesis by simp
  next
    case True
    with Cons.prems(2) have c: "c = 32" by simp
    have "dropWhile is_space cs = cs"
    proof (cases cs)
      case Nil
      then show ?thesis by simp
    next
      case (Cons c' cs')
      with Cons.prems(1) True have "\<not> is_space c'" by simp
      with Cons show ?thesis by simp
    qed
    moreover have "?R (c # cs) = 32 # ?R (dropWhile is_space cs)" using True by (rule collapse_space)
    ultimately show ?thesis using IH c by simp
  qed
qed

lemma strip_prefix_Some: "strip_prefix p s = Some t \<longleftrightarrow> s = p @ t"
  by (induction p s rule: strip_prefix.induct) auto

lemma run_then_Some:
  "run_then C stop s = Some (run, rest) \<longleftrightarrow>
   run \<noteq> [] \<and> run = takeWhile C s \<and> dropWhile C s = stop # rest"
  by (cases "dropWhile C s")
     (auto simp: run_then_def Let_def simp del: dropWhile_eq_Nil_conv)

lemma run_then_append:
  assumes "run \<noteq> []" "\<forall>c\<in>set run. C c" "\<not> C stop"
  shows "run_then C stop (run @ stop # rest) = Some (run, rest)"
  using assms by (simp add: run_then_Some)

lemma id_token_iff:
  "matches_at (id_token d) s \<longleftrightarrow>
   (\<exists>ident rest. ident \<noteq> [] \<and> (\<forall>c\<in>set ident. is_id_char c) \<and> s = 60 # d # ident @ 62 # rest)"
proof
  assume "matches_at (id_token d) s"
  then obtain t ident rest where t: "strip_prefix [60, d] s = Some t"
    and r: "run_then is_id_char 62 t = Some (ident, rest)"
    by (auto simp: matches_at_def id_token_def split: option.splits)
  from t have s: "s = 60 # d # t" by (simp add: strip_prefix_Some)
  from r [unfolded run_then_Some]
  have ident: "ident \<noteq> []" "ident = takeWhile is_id_char t" "dropWhile is_id_char t = 62 # rest"
    by blast+
  have "t = takeWhile is_id_char t @ dropWhile is_id_char t" by simp
  with ident have "t = ident @ 62 # rest" by simp
  moreover have "\<forall>c\<in>set ident. is_id_char c" using ident(2) by (auto dest: set_takeWhileD)
  ultimately show "\<exists>ident rest. ident \<noteq> [] \<and> (\<forall>c\<in>set ident. is_id_char c) \<and> s = 60 # d # ident @ 62 # rest"
    using s ident(1) by blast
next
  assume "\<exists>ident rest. ident \<noteq> [] \<and> (\<forall>c\<in>set ident. is_id_char c) \<and> s = 60 # d # ident @ 62 # rest"
  then obtain ident rest where i: "ident \<noteq> []" "\<forall>c\<in>set ident. is_id_char c"
    and s: "s = 60 # d # ident @ 62 # rest" by blast
  have "\<not> is_id_char 62" by (simp add: is_id_char_def)
  with i have "run_then is_id_char 62 (ident @ 62 # rest) = Some (ident, rest)"
    by (intro run_then_append)
  then show "matches_at (id_token d) s"
    unfolding s by (simp add: matches_at_def id_token_def)
qed

lemma id_token_Nil: "id_token d [] = None"
  by (simp add: id_token_def)

lemma id_token_pos: "id_token d u = Some (n, cap) \<Longrightarrow> 0 < n"
  by (auto simp: id_token_def split: option.splits)

lemma id_token_append: "matches_at (id_token d) u \<Longrightarrow> matches_at (id_token d) (u @ v)"
  unfolding id_token_iff by auto

lemma replace_all_Nil: "m [] = None \<Longrightarrow> replace_all m r [] = []"
  by (simp add: replace_all.simps)

text \<open>
  A pass that replaces every match by the same string \<open>rho\<close>. Code units that cannot
  begin \<open>rho\<close> are copied, so a prefix of the output made of such code units is a prefix
  of the input.
\<close>

lemma replace_prefix_split:
  assumes nil: "m [] = None" and pos: "\<And>u n cap. m u = Some (n, cap) \<Longrightarrow> 0 < n"
    and rho: "rho \<noteq> []" "hd rho \<notin> A"
  shows "set p \<subseteq> A \<Longrightarrow> replace_all m (\<lambda>_. rho) cs = p @ w \<Longrightarrow>
         \<exists>w'. cs = p @ w' \<and> replace_all m (\<lambda>_. rho) w' = w"
proof (induction p arbitrary: cs w)
  case Nil
  then show ?case by simp
next
  case (Cons a p)
  show ?case
  proof (cases cs)
    case Nil
    with Cons.prems(2) nil show ?thesis by (simp add: replace_all_Nil)
  next
    case (Cons c cs')
    show ?thesis
    proof (cases "m (c # cs')")
      case None
      then have "replace_all m (\<lambda>_. rho) (c # cs') = c # replace_all m (\<lambda>_. rho) cs'"
        by (rule replace_all_copy)
      with Cons.prems(2) Cons have "a = c" "replace_all m (\<lambda>_. rho) cs' = p @ w" by simp_all
      moreover have "set p \<subseteq> A" using Cons.prems(1) by simp
      ultimately obtain w' where "cs' = p @ w'" "replace_all m (\<lambda>_. rho) w' = w"
        using Cons.IH by blast
      with \<open>a = c\<close> Cons show ?thesis by simp
    next
      case (Some x)
      obtain n cap where x: "x = (n, cap)" by (cases x)
      with Some pos have "0 < n" by blast
      with Some x have "replace_all m (\<lambda>_. rho) (c # cs') = rho @ replace_all m (\<lambda>_. rho) (drop n (c # cs'))"
        by (simp only: replace_all_hit)
      with Cons.prems(2) Cons have "hd rho = a" using rho(1) by (cases rho) simp_all
      with Cons.prems(1) rho(2) show ?thesis by simp
    qed
  qed
qed

text \<open>
  Such a pass creates no match of a pattern \<open>T\<close> that begins with \<open><\<close>, provided
  that a match of \<open>T\<close> at a copied \<open><\<close> of the output is a match at the same
  place of the input: every match in the output is a match in the input, at a place
  where the pass did not match.
\<close>

lemma no_new_match:
  assumes nil: "m [] = None" and pos: "\<And>u n cap. m u = Some (n, cap) \<Longrightarrow> 0 < n"
    and opens: "\<And>u. matches_at T u \<Longrightarrow> \<exists>t. u = 60 # t"
    and rho: "60 \<notin> set rho"
    and reflect: "\<And>cs. matches_at T (60 # replace_all m (\<lambda>_. rho) cs) \<Longrightarrow> matches_at T (60 # cs)"
  shows "has_match T (replace_all m (\<lambda>_. rho) s) \<Longrightarrow>
         \<exists>pre u. s = pre @ u \<and> matches_at T u \<and> m u = None"
proof (induction "length s" arbitrary: s rule: less_induct)
  case less
  let ?R = "replace_all m (\<lambda>_. rho)"
  show ?case
  proof (cases s)
    case Nil
    with less.prems nil have "matches_at T []" by (simp add: replace_all_Nil)
    from opens [OF this] show ?thesis by simp
  next
    case (Cons c cs)
    show ?thesis
    proof (cases "m (c # cs)")
      case None
      then have R: "?R (c # cs) = c # ?R cs" by (rule replace_all_copy)
      with less.prems Cons consider (here) "matches_at T (c # ?R cs)" | (later) "has_match T (?R cs)"
        by auto
      then show ?thesis
      proof cases
        case later
        have "length cs < length s" using Cons by simp
        from less.hyps [OF this later] obtain pre u where "cs = pre @ u" "matches_at T u" "m u = None"
          by blast
        then have "s = (c # pre) @ u \<and> matches_at T u \<and> m u = None" using Cons by simp
        then show ?thesis by blast
      next
        case here
        from opens [OF here] have c: "c = 60" by simp
        with here have "matches_at T (60 # cs)" using reflect by simp
        with c None Cons have "s = [] @ s \<and> matches_at T s \<and> m s = None" by simp
        then show ?thesis by blast
      qed
    next
      case (Some x)
      obtain n cap where x: "x = (n, cap)" by (cases x)
      with Some pos have n: "0 < n" by blast
      let ?X = "?R (drop n (c # cs))"
      from Some x n have "?R (c # cs) = rho @ ?X" by (simp only: replace_all_hit)
      with less.prems Cons have "has_match T (rho @ ?X)" by simp
      then obtain pre u where pu: "rho @ ?X = pre @ u" and mu: "matches_at T u"
        unfolding has_match_iff by blast
      from pu consider us where "rho = pre @ us" "us @ ?X = u" | us where "rho @ us = pre" "?X = us @ u"
        unfolding append_eq_append_conv2 by blast
      then have "has_match T ?X"
      proof cases
        case 1
        show ?thesis
        proof (cases us)
          case Nil
          with 1 mu have "?X = [] @ u \<and> matches_at T u" by simp
          then show ?thesis unfolding has_match_iff by blast
        next
          case (Cons a us')
          with 1 have "hd u = a" "a \<in> set rho" by auto
          moreover from opens [OF mu] have "hd u = 60" by auto
          ultimately show ?thesis using rho by simp
        qed
      next
        case 2
        with mu show ?thesis unfolding has_match_iff by blast
      qed
      moreover have "length (drop n (c # cs)) < length s" using n Cons by simp
      ultimately obtain pre' u' where "drop n (c # cs) = pre' @ u'" "matches_at T u'" "m u' = None"
        using less.hyps by blast
      moreover have "s = take n (c # cs) @ drop n (c # cs)" using Cons by simp
      ultimately have "s = (take n (c # cs) @ pre') @ u' \<and> matches_at T u' \<and> m u' = None" by simp
      then show ?thesis by blast
    qed
  qed
qed

lemma id_token_reflect:
  assumes nil: "m [] = None" and pos: "\<And>u n cap. m u = Some (n, cap) \<Longrightarrow> 0 < n"
    and rho: "rho \<noteq> []" "\<not> is_id_char (hd rho)" "hd rho \<noteq> 62"
      "hd rho \<noteq> d \<or> (tl rho \<noteq> [] \<and> \<not> is_id_char (hd (tl rho)))"
    and here: "matches_at (id_token d) (60 # replace_all m (\<lambda>_. rho) cs)"
  shows "matches_at (id_token d) (60 # cs)"
proof -
  let ?R = "replace_all m (\<lambda>_. rho)"
  from here obtain ident rest where i: "ident \<noteq> []" "\<forall>c\<in>set ident. is_id_char c"
    and Rcs: "?R cs = d # ident @ 62 # rest"
    unfolding id_token_iff by auto
  obtain i0 ident' where ident: "ident = i0 # ident'" using i(1) by (cases ident) auto
  with i(2) have i0: "is_id_char i0" by simp
  have "\<exists>w'. cs = d # ident @ 62 # w'"
  proof (cases cs)
    case Nil
    with Rcs nil show ?thesis by (simp add: replace_all_Nil)
  next
    case (Cons c1 cs1)
    show ?thesis
    proof (cases "m (c1 # cs1)")
      case (Some x)
      obtain n cap where x: "x = (n, cap)" by (cases x)
      with Some pos have "0 < n" by blast
      with Some x have "?R (c1 # cs1) = rho @ ?R (drop n (c1 # cs1))"
        by (simp only: replace_all_hit)
      with Rcs Cons have eq2: "rho @ ?R (drop n (c1 # cs1)) = d # i0 # ident' @ 62 # rest"
        using ident by simp
      obtain r0 rho' where rho0: "rho = r0 # rho'" using rho(1) by (cases rho) auto
      with eq2 have "r0 = d" by simp
      with rho(4) rho0 have "rho' \<noteq> []" "\<not> is_id_char (hd rho')" by simp_all
      then obtain r1 rho'' where "rho' = r1 # rho''" "\<not> is_id_char r1" by (cases rho') auto
      with eq2 rho0 have "r1 = i0" by simp
      with \<open>\<not> is_id_char r1\<close> i0 show ?thesis by simp
    next
      case None
      then have "?R (c1 # cs1) = c1 # ?R cs1" by (rule replace_all_copy)
      with Rcs Cons have c1: "c1 = d" and R1: "?R cs1 = (ident @ [62]) @ rest" by simp_all
      have "hd rho \<notin> {c. is_id_char c \<or> c = 62}" using rho(2,3) by simp
      moreover have "set (ident @ [62]) \<subseteq> {c. is_id_char c \<or> c = 62}" using i(2) by auto
      ultimately have "\<exists>w'. cs1 = (ident @ [62]) @ w' \<and> ?R w' = rest"
        using nil pos rho(1) R1
        by (intro replace_prefix_split [where m = m and rho = rho
              and A = "{c. is_id_char c \<or> c = 62}"])
      then obtain w' where "cs1 = (ident @ [62]) @ w'" by blast
      with c1 Cons show ?thesis by simp
    qed
  qed
  then obtain w' where "cs = d # ident @ 62 # w'" by blast
  with i show ?thesis unfolding id_token_iff by blast
qed

lemma no_new_token:
  assumes nil: "m [] = None" and pos: "\<And>u n cap. m u = Some (n, cap) \<Longrightarrow> 0 < n"
    and rho: "rho \<noteq> []" "60 \<notin> set rho" "\<not> is_id_char (hd rho)" "hd rho \<noteq> 62"
      "hd rho \<noteq> d \<or> (tl rho \<noteq> [] \<and> \<not> is_id_char (hd (tl rho)))"
  shows "has_match (id_token d) (replace_all m (\<lambda>_. rho) s) \<Longrightarrow>
         \<exists>pre u. s = pre @ u \<and> matches_at (id_token d) u \<and> m u = None"
proof -
  assume h: "has_match (id_token d) (replace_all m (\<lambda>_. rho) s)"
  show "\<exists>pre u. s = pre @ u \<and> matches_at (id_token d) u \<and> m u = None"
  proof (rule no_new_match [where m = m and rho = rho and T = "id_token d"])
    show "m [] = None" by (rule nil)
    show "m u = Some (n, cap) \<Longrightarrow> 0 < n" for u n cap by (rule pos)
    show "matches_at (id_token d) u \<Longrightarrow> \<exists>t. u = 60 # t" for u
      unfolding id_token_iff by blast
    show "60 \<notin> set rho" by (rule rho(2))
    show "matches_at (id_token d) (60 # replace_all m (\<lambda>_. rho) cs) \<Longrightarrow>
          matches_at (id_token d) (60 # cs)" for cs
      using nil pos rho(1,3,4,5) by (rule id_token_reflect)
    show "has_match (id_token d) (replace_all m (\<lambda>_. rho) s)" by (rule h)
  qed
qed

lemmas match_defs = text_defs replace_all.simps matches_at_def markup_free_def

lemma not_has_match_without:
  assumes "\<And>u. c \<notin> set u \<Longrightarrow> m u = None" "c \<notin> set s"
  shows "\<not> has_match m s"
proof
  assume "has_match m s"
  then obtain pre u where "s = pre @ u" "matches_at m u" unfolding has_match_iff by blast
  with assms(2) have "c \<notin> set u" by simp
  with assms(1) \<open>matches_at m u\<close> show False by (simp add: matches_at_def)
qed

lemma run_then_needs_stop: "stop \<notin> set s \<Longrightarrow> run_then C stop s = None"
proof (rule ccontr)
  assume a: "stop \<notin> set s" and "run_then C stop s \<noteq> None"
  then obtain run rest where "run_then C stop s = Some (run, rest)" by auto
  then have "dropWhile C s = stop # rest" by (simp add: run_then_Some)
  then have "stop \<in> set (dropWhile C s)" by simp
  then have "stop \<in> set s" by (rule set_dropWhileD)
  with a show False by contradiction
qed

lemma channel_named_needs_bar: "124 \<notin> set u \<Longrightarrow> channel_named u = None"
proof -
  assume a: "124 \<notin> set u"
  show ?thesis
  proof (cases "strip_prefix (js ''<#'') u")
    case None
    then show ?thesis by (simp add: channel_named_def)
  next
    case (Some t)
    then have "u = js ''<#'' @ t" by (simp add: strip_prefix_Some)
    with a have "124 \<notin> set t" by simp
    then have "run_then is_id_char 124 t = None" by (rule run_then_needs_stop)
    with Some show ?thesis by (simp add: channel_named_def)
  qed
qed

lemma scheme_needs_colon: "58 \<notin> set u \<Longrightarrow> scheme u = None"
proof -
  assume a: "58 \<notin> set u"
  have c: "strip_prefix (js ''://'') t = None" if "58 \<notin> set t" for t
  proof (cases "strip_prefix (js ''://'') t")
    case None
    then show ?thesis .
  next
    case (Some v)
    then have "t = js ''://'' @ v" by (simp add: strip_prefix_Some)
    with that show ?thesis by (simp add: js_def)
  qed
  show ?thesis
  proof (cases "strip_prefix (js ''http'') u")
    case None
    then show ?thesis by (simp add: scheme_def)
  next
    case (Some t)
    then have "u = js ''http'' @ t" by (simp add: strip_prefix_Some)
    with a have t: "58 \<notin> set t" by simp
    show ?thesis
    proof (cases t)
      case Nil
      with Some show ?thesis by (simp add: scheme_def)
    next
      case (Cons x t')
      with t have "58 \<notin> set t'" by simp
      with Some Cons c [OF t] c [OF this] show ?thesis by (simp add: scheme_def)
    qed
  qed
qed

lemma angle_url_needs_colon: "58 \<notin> set u \<Longrightarrow> angle_url u = None"
  by (cases u) (auto simp: angle_url_def scheme_needs_colon)

lemma bare_url_needs_colon: "58 \<notin> set u \<Longrightarrow> bare_url u = None"
  by (simp add: bare_url_def scheme_needs_colon)

lemma emoji_code_needs_colon: "58 \<notin> set u \<Longrightarrow> emoji_code u = None"
  by (cases u) (auto simp: emoji_code_def)

lemma user_pass_clean:
  "\<not> has_match user_mention (replace_all user_mention (\<lambda>_. js ''@user'') s)"
proof
  assume "has_match user_mention (replace_all user_mention (\<lambda>_. js ''@user'') s)"
  then have "has_match (id_token 64) (replace_all (id_token 64) (\<lambda>_. js ''@user'') s)"
    by (simp only: user_mention_id_token)
  then have "\<exists>pre u. s = pre @ u \<and> matches_at (id_token 64) u \<and> id_token 64 u = None"
    by (rule no_new_token [rotated -1])
       (simp_all add: id_token_Nil id_token_pos js_def is_id_char_def)
  then show False by (auto simp: matches_at_def)
qed

lemma plain_pass_clean:
  "\<not> has_match channel_plain (replace_all channel_plain (\<lambda>_. js ''#channel'') s)"
proof
  assume "has_match channel_plain (replace_all channel_plain (\<lambda>_. js ''#channel'') s)"
  then have "has_match (id_token 35) (replace_all (id_token 35) (\<lambda>_. js ''#channel'') s)"
    by (simp only: channel_plain_id_token)
  then have "\<exists>pre u. s = pre @ u \<and> matches_at (id_token 35) u \<and> id_token 35 u = None"
    by (rule no_new_token [rotated -1])
       (simp_all add: id_token_Nil id_token_pos js_def is_id_char_def)
  then show False by (auto simp: matches_at_def)
qed

lemma plain_pass_keeps_user_clean:
  assumes "\<not> has_match user_mention s"
  shows "\<not> has_match user_mention (replace_all channel_plain (\<lambda>_. js ''#channel'') s)"
proof
  assume "has_match user_mention (replace_all channel_plain (\<lambda>_. js ''#channel'') s)"
  then have "has_match (id_token 64) (replace_all (id_token 35) (\<lambda>_. js ''#channel'') s)"
    by (simp only: user_mention_id_token channel_plain_id_token)
  then have "\<exists>pre u. s = pre @ u \<and> matches_at (id_token 64) u \<and> id_token 35 u = None"
    by (rule no_new_token [rotated -1])
       (simp_all add: id_token_Nil id_token_pos js_def is_id_char_def)
  then have "has_match (id_token 64) s" unfolding has_match_iff by blast
  with assms show False by (simp add: user_mention_id_token)
qed

lemma collapse_keeps_clean:
  assumes "\<not> has_match (id_token d) s" "d \<noteq> 32"
  shows "\<not> has_match (id_token d) (replace_all space_run (\<lambda>_. js '' '') s)"
proof
  assume "has_match (id_token d) (replace_all space_run (\<lambda>_. js '' '') s)"
  then have "\<exists>pre u. s = pre @ u \<and> matches_at (id_token d) u \<and> space_run u = None"
    using assms(2)
    by (intro no_new_token [where m = space_run and rho = "js '' ''"])
       (simp_all add: space_run_Nil space_run_pos js_def is_id_char_def)
  then have "has_match (id_token d) s" unfolding has_match_iff by blast
  with assms(1) show False by contradiction
qed

lemma trim_keeps_clean:
  assumes "\<not> has_match (id_token d) s"
  shows "\<not> has_match (id_token d) (trim s)"
proof
  assume "has_match (id_token d) (trim s)"
  then obtain pre u where pu: "trim s = pre @ u" "matches_at (id_token d) u"
    unfolding has_match_iff by blast
  obtain pre' post where "s = pre' @ trim s @ post" using trim_decompose by blast
  with pu(1) have "s = (pre' @ pre) @ (u @ post)" by simp
  moreover have "matches_at (id_token d) (u @ post)" using pu(2) by (rule id_token_append)
  ultimately have "has_match (id_token d) s" unfolding has_match_iff by blast
  with assms show False by contradiction
qed

lemma set_trim: "set (trim s) \<subseteq> set s"
proof
  fix x assume "x \<in> set (trim s)"
  then have "x \<in> set (dropWhile is_space (rev (dropWhile is_space s)))"
    by (simp add: trim_def)
  then have "x \<in> set (rev (dropWhile is_space s))" by (rule set_dropWhileD)
  then have "x \<in> set (dropWhile is_space s)" by simp
  then show "x \<in> set s" by (rule set_dropWhileD)
qed

lemma normalize_text_whitespace:
  "no_space_run (normalize_text s) \<and> (\<forall>c\<in>set (normalize_text s). is_space c \<longrightarrow> c = 32) \<and>
   (normalize_text s \<noteq> [] \<longrightarrow>
      \<not> is_space (hd (normalize_text s)) \<and> \<not> is_space (last (normalize_text s)))"
proof -
  obtain x where n: "normalize_text s = trim (replace_all space_run (\<lambda>_. js '' '') x)"
    by (simp add: normalize_text_def Let_def)
  let ?y = "replace_all space_run (\<lambda>_. js '' '') x"
  obtain pre post where y: "?y = pre @ trim ?y @ post" using trim_decompose by blast
  have "no_space_run ?y" by (simp add: collapse_no_space_run)
  then have "no_space_run (pre @ trim ?y @ post)" using y by simp
  then have 1: "no_space_run (trim ?y)" by (blast dest: no_space_run_append)
  have "set (trim ?y) \<subseteq> set ?y" by (rule set_trim)
  then have 2: "\<forall>c\<in>set (trim ?y). is_space c \<longrightarrow> c = 32"
    using collapse_no_space_run [of x] by blast
  show ?thesis unfolding n using 1 2 trim_ends [of ?y] by blast
qed

lemma preprocessText_cases:
  "preprocessText s = [] \<or> (preprocessText s = normalize_text s \<and> 10 \<le> length (normalize_text s))"
  by (simp add: preprocessText_def MIN_LENGTH_def Let_def)

lemma markup_free_Nil: "markup_free []"
  by (simp add: match_defs)

text \<open>
  The passes, one after the other: which matches a pass can create, and which it cannot.
\<close>

lemma normalize_text_emoji_removed:
  "normalize_text s = trim (replace_all space_run (\<lambda>_. js '' '') (emoji_removed s))"
  by (simp add: normalize_text_def emoji_removed_def links_rewritten_def Let_def)

lemma angle_url_Nil: "angle_url [] = None"
  by (simp add: angle_url_def)

lemma angle_url_pos: "angle_url u = Some (n, cap) \<Longrightarrow> 0 < n"
  by (cases u) (auto simp: angle_url_def split: option.splits if_splits)

lemma angle_url_gt: "angle_url (62 # y) = None"
  by (simp add: angle_url_def)

lemma bare_url_Nil: "bare_url [] = None"
  by (simp add: bare_url_def scheme_def js_def)

lemma scheme_pos: "scheme u = Some (k, v) \<Longrightarrow> 0 < k"
  by (auto simp: scheme_def split: option.splits list.splits if_splits)

lemma bare_url_pos: "bare_url u = Some (n, cap) \<Longrightarrow> 0 < n"
  by (auto simp: bare_url_def Let_def split: option.splits if_splits dest: scheme_pos)

lemma bare_url_gt: "bare_url (62 # y) = None"
  by (simp add: bare_url_def scheme_def js_def)

lemma space_run_gt: "space_run (62 # y) = None"
  by (simp add: space_run_def is_space_def)

lemma id_token_gt: "d \<noteq> 62 \<Longrightarrow> id_token d (62 # y) = None"
  by (simp add: id_token_def)

lemma emoji_code_Nil: "emoji_code [] = None"
  by (simp add: emoji_code_def)

lemma emoji_code_pos: "emoji_code u = Some (n, cap) \<Longrightarrow> 0 < n"
  by (cases u) (auto simp: emoji_code_def split: option.splits if_splits)

lemma emoji_code_first: "c \<noteq> 58 \<Longrightarrow> emoji_code (c # u) = None"
  by (simp add: emoji_code_def)

lemma emoji_code_Some:
  assumes "emoji_code u = Some (n, cap)"
  shows "\<exists>body rest. (\<forall>c\<in>set body. is_emoji_char c) \<and> u = 58 # body @ 58 # rest \<and> drop n u = rest"
proof -
  from assms obtain t body rest where u: "u = 58 # t"
    and r: "run_then is_emoji_char 58 t = Some (body, rest)" and n: "n = 1 + length body + 1"
    by (cases u) (auto simp: emoji_code_def split: option.splits if_splits)
  from r [unfolded run_then_Some]
  have body: "body = takeWhile is_emoji_char t" "dropWhile is_emoji_char t = 58 # rest"
    by blast+
  have "t = takeWhile is_emoji_char t @ dropWhile is_emoji_char t" by simp
  with body have "t = body @ 58 # rest" by simp
  moreover have "\<forall>c\<in>set body. is_emoji_char c" using body(1) by (auto dest: set_takeWhileD)
  ultimately show ?thesis using u n by auto
qed

text \<open>Code units outside the angle brackets.\<close>

lemma outside_plain:
  "k \<notin> set x \<Longrightarrow> 60 \<notin> set x \<Longrightarrow> 62 \<notin> set x \<Longrightarrow> outside k b (x @ y) = outside k b y"
  by (induction x) auto

lemma outside_open:
  "outside k True (x @ y) \<Longrightarrow> 62 \<notin> set x \<Longrightarrow> k \<notin> set x \<and> outside k True y"
  by (induction x) (auto split: if_splits)

lemma outside_group:
  assumes "outside k b (60 # x @ 62 # rest)" "62 \<notin> set x"
  shows "k \<notin> set x \<and> outside k False rest"
proof -
  from assms(1) have "outside k True (x @ 62 # rest)" by simp
  with assms(2) have "k \<notin> set x" "outside k True (62 # rest)"
    using outside_open by blast+
  then show ?thesis by simp
qed

lemma outside_tail: "outside k b (c # cs) \<Longrightarrow> \<exists>b'. outside k b' cs"
  by auto

lemma id_token_Some:
  assumes "id_token d u = Some (n, cap)"
  shows "\<exists>ident rest. ident \<noteq> [] \<and> (\<forall>c\<in>set ident. is_id_char c) \<and>
           u = 60 # d # ident @ 62 # rest \<and> drop n u = rest"
proof -
  from assms obtain t ident rest where t: "strip_prefix [60, d] u = Some t"
    and r: "run_then is_id_char 62 t = Some (ident, rest)" and n: "n = 2 + length ident + 1"
    by (auto simp: id_token_def split: option.splits)
  from t have u: "u = 60 # d # t" by (simp add: strip_prefix_Some)
  from r [unfolded run_then_Some]
  have ident: "ident \<noteq> []" "ident = takeWhile is_id_char t" "dropWhile is_id_char t = 62 # rest"
    by blast+
  have "t = takeWhile is_id_char t @ dropWhile is_id_char t" by simp
  with ident have t': "t = ident @ 62 # rest" by simp
  moreover have "\<forall>c\<in>set ident. is_id_char c" using ident(2) by (auto dest: set_takeWhileD)
  ultimately show ?thesis using u ident(1) n by auto
qed

lemma channel_named_Some:
  assumes "channel_named u = Some (n, name)"
  shows "\<exists>ident rest. ident \<noteq> [] \<and> (\<forall>c\<in>set ident. is_id_char c) \<and> name \<noteq> [] \<and>
           62 \<notin> set name \<and> u = 60 # 35 # ident @ 124 # name @ 62 # rest \<and> drop n u = rest"
proof -
  from assms obtain t ident v rest where t: "strip_prefix (js ''<#'') u = Some t"
    and r1: "run_then is_id_char 124 t = Some (ident, v)"
    and r2: "run_then not_gt 62 v = Some (name, rest)"
    and n: "n = 2 + length ident + 1 + length name + 1"
    by (auto simp: channel_named_def split: option.splits)
  from t have u: "u = 60 # 35 # t" by (simp add: strip_prefix_Some js_def)
  from r1 [unfolded run_then_Some]
  have ident: "ident \<noteq> []" "ident = takeWhile is_id_char t" "dropWhile is_id_char t = 124 # v"
    by blast+
  from r2 [unfolded run_then_Some]
  have name: "name \<noteq> []" "name = takeWhile not_gt v" "dropWhile not_gt v = 62 # rest"
    by blast+
  have "t = takeWhile is_id_char t @ dropWhile is_id_char t" by simp
  with ident have t': "t = ident @ 124 # v" by simp
  have "v = takeWhile not_gt v @ dropWhile not_gt v" by simp
  with name have v': "v = name @ 62 # rest" by simp
  have "\<forall>c\<in>set ident. is_id_char c" using ident(2) by (auto dest: set_takeWhileD)
  moreover have "62 \<notin> set name"
  proof
    assume "62 \<in> set name"
    then have "not_gt 62" unfolding name(2) by (rule set_takeWhileD [THEN conjunct2])
    then show False by (simp add: not_gt_def)
  qed
  ultimately show ?thesis using u t' v' ident(1) name(1) n by auto
qed

lemma channel_named_iff:
  "matches_at channel_named u \<longleftrightarrow>
   (\<exists>ident name rest. ident \<noteq> [] \<and> (\<forall>c\<in>set ident. is_id_char c) \<and> name \<noteq> [] \<and>
      62 \<notin> set name \<and> u = 60 # 35 # ident @ 124 # name @ 62 # rest)"
proof
  assume "matches_at channel_named u"
  then obtain n name where "channel_named u = Some (n, name)"
    by (auto simp: matches_at_def split: option.splits)
  from channel_named_Some [OF this]
  show "\<exists>ident name rest. ident \<noteq> [] \<and> (\<forall>c\<in>set ident. is_id_char c) \<and> name \<noteq> [] \<and>
      62 \<notin> set name \<and> u = 60 # 35 # ident @ 124 # name @ 62 # rest"
    by blast
next
  assume "\<exists>ident name rest. ident \<noteq> [] \<and> (\<forall>c\<in>set ident. is_id_char c) \<and> name \<noteq> [] \<and>
      62 \<notin> set name \<and> u = 60 # 35 # ident @ 124 # name @ 62 # rest"
  then obtain ident name rest where i: "ident \<noteq> []" "\<forall>c\<in>set ident. is_id_char c"
    and nm: "name \<noteq> []" "62 \<notin> set name"
    and u: "u = 60 # 35 # ident @ 124 # name @ 62 # rest"
    by blast
  have "\<not> is_id_char 124" by (simp add: is_id_char_def)
  with i have r1: "run_then is_id_char 124 (ident @ 124 # name @ 62 # rest) = Some (ident, name @ 62 # rest)"
    by (intro run_then_append)
  have "\<forall>c\<in>set name. not_gt c" using nm(2) by (auto simp: not_gt_def)
  moreover have "\<not> not_gt 62" by (simp add: not_gt_def)
  ultimately have r2: "run_then not_gt 62 (name @ 62 # rest) = Some (name, rest)"
    using nm(1) by (intro run_then_append)
  show "matches_at channel_named u"
    unfolding u by (simp add: matches_at_def channel_named_def js_def r1 r2)
qed

lemma channel_named_pos: "channel_named u = Some (n, cap) \<Longrightarrow> 0 < n"
  by (auto simp: channel_named_def split: option.splits)

lemma channel_named_Nil: "channel_named [] = None"
  by (simp add: channel_named_def js_def)

lemma channel_named_at_60: "c \<noteq> 60 \<Longrightarrow> channel_named (c # u) = None"
  by (simp add: channel_named_def js_def)

lemma channel_named_opens: "matches_at channel_named u \<Longrightarrow> \<exists>t. u = 60 # t"
  unfolding channel_named_iff by blast

lemma channel_named_append:
  assumes "matches_at channel_named u"
  shows "matches_at channel_named (u @ v)"
proof -
  from assms obtain ident name rest where "ident \<noteq> []" "\<forall>c\<in>set ident. is_id_char c"
    "name \<noteq> []" "62 \<notin> set name" "u = 60 # 35 # ident @ 124 # name @ 62 # rest"
    unfolding channel_named_iff by blast
  then have "ident \<noteq> [] \<and> (\<forall>c\<in>set ident. is_id_char c) \<and> name \<noteq> [] \<and> 62 \<notin> set name \<and>
     u @ v = 60 # 35 # ident @ 124 # name @ 62 # (rest @ v)"
    by simp
  then show ?thesis unfolding channel_named_iff by blast
qed

lemma split_at_first_gt:
  "62 \<in> set cs \<Longrightarrow> \<exists>x y. cs = x @ 62 # y \<and> 62 \<notin> set x"
  by (metis split_list_first)

lemma first_gt_unique:
  assumes "x @ 62 # y = x' @ 62 # y'" "62 \<notin> set x" "62 \<notin> set x'"
  shows "x = x' \<and> y = y'"
  using assms
proof (induction x arbitrary: x')
  case Nil
  then show ?case by (cases x') auto
next
  case (Cons a x)
  then show ?case by (cases x') auto
qed

lemma id_token_bracket:
  assumes "matches_at (id_token d) u" "d \<noteq> 62"
  shows "\<exists>x rest. u = 60 # x @ 62 # rest \<and> 62 \<notin> set x"
proof -
  from assms(1) obtain ident rest where i: "\<forall>c\<in>set ident. is_id_char c"
    and u: "u = 60 # d # ident @ 62 # rest"
    unfolding id_token_iff by blast
  from i assms(2) have "62 \<notin> set (d # ident)" by (auto simp: is_id_char_def)
  moreover from u have "u = 60 # (d # ident) @ 62 # rest" by simp
  ultimately show ?thesis by blast
qed

lemma id_token_rest:
  assumes "62 \<notin> set x" "matches_at (id_token d) (60 # x @ 62 # rest)" "d \<noteq> 62"
  shows "matches_at (id_token d) (60 # x @ 62 # rest')"
proof -
  from assms(2) obtain ident r where i: "ident \<noteq> []" "\<forall>c\<in>set ident. is_id_char c"
    and eq: "x @ 62 # rest = (d # ident) @ 62 # r"
    unfolding id_token_iff by auto
  from i assms(3) have "62 \<notin> set (d # ident)" by (auto simp: is_id_char_def)
  with eq assms(1) have "x = d # ident" using first_gt_unique by blast
  with i show ?thesis unfolding id_token_iff by auto
qed

lemma channel_named_bracket:
  assumes "matches_at channel_named u"
  shows "\<exists>x rest. u = 60 # x @ 62 # rest \<and> 62 \<notin> set x"
proof -
  from assms obtain ident name rest where i: "\<forall>c\<in>set ident. is_id_char c" and nm: "62 \<notin> set name"
    and u: "u = 60 # 35 # ident @ 124 # name @ 62 # rest"
    unfolding channel_named_iff by blast
  from i nm have "62 \<notin> set (35 # ident @ 124 # name)" by (auto simp: is_id_char_def)
  moreover from u have "u = 60 # (35 # ident @ 124 # name) @ 62 # rest" by simp
  ultimately show ?thesis by blast
qed

lemma channel_named_rest:
  assumes "62 \<notin> set x" "matches_at channel_named (60 # x @ 62 # rest)"
  shows "matches_at channel_named (60 # x @ 62 # rest')"
proof -
  from assms(2) obtain ident name r where i: "ident \<noteq> []" "\<forall>c\<in>set ident. is_id_char c"
    and nm: "name \<noteq> []" "62 \<notin> set name"
    and eq: "x @ 62 # rest = (35 # ident @ 124 # name) @ 62 # r"
    unfolding channel_named_iff by auto
  from i nm have "62 \<notin> set (35 # ident @ 124 # name)" by (auto simp: is_id_char_def)
  with eq assms(1) have "x = 35 # ident @ 124 # name" using first_gt_unique by blast
  then have "ident \<noteq> [] \<and> (\<forall>c\<in>set ident. is_id_char c) \<and> name \<noteq> [] \<and> 62 \<notin> set name \<and>
     60 # x @ 62 # rest' = 60 # 35 # ident @ 124 # name @ 62 # rest'"
    using i nm by simp
  then show ?thesis unfolding channel_named_iff by blast
qed

lemma replace_all_copy_prefix:
  assumes "\<And>c u. c \<noteq> k \<Longrightarrow> m (c # u) = None"
  shows "k \<notin> set x \<Longrightarrow> replace_all m r (x @ c # y) = x @ replace_all m r (c # y)"
proof (induction x)
  case Nil
  then show ?case by simp
next
  case (Cons a x)
  then have "m ((a # x) @ c # y) = None" using assms by simp
  then have "replace_all m r ((a # x) @ c # y) = a # replace_all m r (x @ c # y)"
    by (simp add: replace_all_copy)
  with Cons show ?case by simp
qed

lemma replace_all_copy_all:
  assumes "\<And>c u. c \<noteq> k \<Longrightarrow> m (c # u) = None" "m [] = None"
  shows "k \<notin> set x \<Longrightarrow> replace_all m r x = x"
proof (induction x)
  case Nil
  then show ?case using assms(2) by (simp add: replace_all_Nil)
next
  case (Cons a x)
  then have "m (a # x) = None" using assms(1) by simp
  then have "replace_all m r (a # x) = a # replace_all m r x" by (rule replace_all_copy)
  with Cons show ?case by simp
qed

lemma user_pass_outside:
  "outside 60 b s \<Longrightarrow> outside 60 b (replace_all user_mention (\<lambda>_. js ''@user'') s)"
proof (induction "length s" arbitrary: s b rule: less_induct)
  case less
  let ?R = "replace_all user_mention (\<lambda>_. js ''@user'')"
  show ?case
  proof (cases s)
    case Nil
    then show ?thesis by (simp add: replace_all_Nil user_mention_id_token id_token_Nil)
  next
    case (Cons c cs)
    show ?thesis
    proof (cases "user_mention (c # cs)")
      case None
      then have R: "?R (c # cs) = c # ?R cs" by (rule replace_all_copy)
      have len: "length cs < length s" using Cons by simp
      show ?thesis
        using less.prems less.hyps [OF len] unfolding Cons R by (auto split: if_splits)
    next
      case (Some a)
      obtain n cap where a: "a = (n, cap)" by (cases a)
      with Some have tok: "id_token 64 (c # cs) = Some (n, cap)" by (simp add: user_mention_id_token)
      then have n: "0 < n" by (rule id_token_pos)
      from id_token_Some [OF tok] obtain ident rest where i: "\<forall>c\<in>set ident. is_id_char c"
        and eq: "c # cs = 60 # 64 # ident @ 62 # rest" and rest: "drop n (c # cs) = rest"
        by blast
      have R: "?R (c # cs) = js ''@user'' @ ?R rest"
        using Some a n rest by (simp add: replace_all_hit)
      have "62 \<notin> set (64 # ident)" using i by (auto simp: is_id_char_def)
      moreover have "outside 60 b (60 # (64 # ident) @ 62 # rest)" using less.prems Cons eq by simp
      ultimately have "outside 60 False rest" using outside_group by blast
      moreover have b: "\<not> b" using less.prems Cons eq by simp
      moreover have "length rest < length s" using Cons eq by simp
      ultimately have "outside 60 False (?R rest)" using less.hyps by blast
      moreover have "60 \<notin> set (js ''@user'')" "62 \<notin> set (js ''@user'')" by (simp_all add: js_def)
      ultimately have "outside 60 False (js ''@user'' @ ?R rest)" by (simp add: outside_plain)
      with b show ?thesis unfolding Cons R by simp
    qed
  qed
qed

text \<open>
  A pass whose matches all begin with \<open>k\<close>, on a string where \<open>k\<close> stays outside the
  angle brackets: what lies between a \<open><\<close> and the next \<open>>\<close> is copied. So the pass
  creates no match of a pattern \<open>T\<close> whose matches are such bracketed groups.
\<close>

lemma inside_pass_reflects:
  assumes nil: "m [] = None" and pos: "\<And>u n cap. m u = Some (n, cap) \<Longrightarrow> 0 < n"
    and first: "\<And>c u. c \<noteq> k \<Longrightarrow> m (c # u) = None" and k: "k \<noteq> 62"
    and after: "\<And>b u n cap. outside k b u \<Longrightarrow> m u = Some (n, cap) \<Longrightarrow>
                  outside k False (drop n u) \<and> 60 \<notin> set (r cap)"
    and bracket: "\<And>u. matches_at T u \<Longrightarrow> \<exists>x rest. u = 60 # x @ 62 # rest \<and> 62 \<notin> set x"
    and rest: "\<And>x rest rest'. 62 \<notin> set x \<Longrightarrow> matches_at T (60 # x @ 62 # rest) \<Longrightarrow>
                 matches_at T (60 # x @ 62 # rest')"
  shows "outside k b s \<Longrightarrow> has_match T (replace_all m r s) \<Longrightarrow>
         \<exists>pre u. s = pre @ u \<and> matches_at T u \<and> m u = None"
proof (induction "length s" arbitrary: s b rule: less_induct)
  case less
  let ?R = "replace_all m r"
  show ?case
  proof (cases s)
    case Nil
    with less.prems(2) nil have "matches_at T []" by (simp add: replace_all_Nil)
    from bracket [OF this] show ?thesis by simp
  next
    case (Cons c cs)
    show ?thesis
    proof (cases "m (c # cs)")
      case (Some a)
      obtain n cap where a: "a = (n, cap)" by (cases a)
      with Some have hit: "m (c # cs) = Some (n, cap)" by simp
      then have n: "0 < n" by (rule pos)
      let ?rest = "drop n (c # cs)"
      from less.prems(1) Cons have "outside k b (c # cs)" by simp
      from after [OF this hit] have nn: "outside k False ?rest" and rho60: "60 \<notin> set (r cap)"
        by simp_all
      have R: "?R (c # cs) = r cap @ ?R ?rest"
        using hit n by (rule replace_all_hit)
      from less.prems(2) Cons R obtain pre u where pu: "r cap @ ?R ?rest = pre @ u"
        and mu: "matches_at T u"
        unfolding has_match_iff by auto
      from bracket [OF mu] have hd: "hd u = 60" by auto
      from pu consider us where "r cap = pre @ us" "us @ ?R ?rest = u"
        | us where "r cap @ us = pre" "?R ?rest = us @ u"
        unfolding append_eq_append_conv2 by blast
      then have "has_match T (?R ?rest)"
      proof cases
        case 1
        show ?thesis
        proof (cases us)
          case Nil
          with 1 mu have "?R ?rest = [] @ u \<and> matches_at T u" by simp
          then show ?thesis unfolding has_match_iff by blast
        next
          case (Cons a us')
          with 1 have "hd u = a" "a \<in> set (r cap)" by auto
          with hd rho60 show ?thesis by simp
        qed
      next
        case 2
        with mu show ?thesis unfolding has_match_iff by blast
      qed
      moreover have "length ?rest < length s" using Cons n by simp
      ultimately obtain pre' u' where "?rest = pre' @ u'" "matches_at T u'" "m u' = None"
        using less.hyps nn by blast
      moreover have "s = take n (c # cs) @ ?rest" using Cons by simp
      ultimately have "s = (take n (c # cs) @ pre') @ u' \<and> matches_at T u' \<and> m u' = None"
        by simp
      then show ?thesis by blast
    next
      case None
      then have R: "?R (c # cs) = c # ?R cs" by (rule replace_all_copy)
      have len: "length cs < length s" using Cons by simp
      from less.prems(2) Cons R consider (here) "matches_at T (c # ?R cs)" | (later) "has_match T (?R cs)"
        by auto
      then show ?thesis
      proof cases
        case later
        from less.prems(1) Cons obtain b' where "outside k b' cs" using outside_tail by blast
        from less.hyps [OF len this later] obtain pre u where
          "cs = pre @ u" "matches_at T u" "m u = None" by blast
        then have "s = (c # pre) @ u \<and> matches_at T u \<and> m u = None" using Cons by simp
        then show ?thesis by blast
      next
        case here
        from bracket [OF here] obtain x rest' where c: "c = 60" and Rcs: "?R cs = x @ 62 # rest'"
          and x: "62 \<notin> set x" by auto
        from less.prems(1) Cons c have opened: "outside k True cs" by simp
        have "62 \<in> set cs"
        proof (rule ccontr)
          assume no: "62 \<notin> set cs"
          with opened have "k \<notin> set cs" using outside_open [of k cs "[]"] by simp
          with first nil have "?R cs = cs" by (rule replace_all_copy_all)
          with Rcs no show False by simp
        qed
        then obtain x0 y where cs: "cs = x0 @ 62 # y" and x0: "62 \<notin> set x0"
          using split_at_first_gt by blast
        with opened have "k \<notin> set x0" using outside_open by blast
        with first have "?R (x0 @ 62 # y) = x0 @ ?R (62 # y)" by (rule replace_all_copy_prefix)
        moreover have "m (62 # y) = None" using k by (intro first) simp
        then have "?R (62 # y) = 62 # ?R y" by (rule replace_all_copy)
        ultimately have "x0 @ 62 # ?R y = x @ 62 # rest'" using Rcs cs by simp
        with x0 x have "x0 = x" using first_gt_unique by blast
        with here Rcs c have "matches_at T (60 # x0 @ 62 # rest')" by simp
        with x0 have "matches_at T (60 # x0 @ 62 # y)" by (rule rest)
        with c cs Cons have "matches_at T s" by simp
        with None Cons have "s = [] @ s \<and> matches_at T s \<and> m s = None" by simp
        then show ?thesis by blast
      qed
    qed
  qed
qed

text \<open>The same for the named channel mentions, after a pass with a constant replacement.\<close>

lemma channel_named_reflect:
  assumes nil: "m [] = None" and pos: "\<And>u n cap. m u = Some (n, cap) \<Longrightarrow> 0 < n"
    and rho: "rho \<noteq> []" "62 \<notin> set rho" "\<not> is_id_char (hd rho)" "hd rho \<noteq> 124"
      "hd rho \<noteq> 35 \<or> (tl rho \<noteq> [] \<and> \<not> is_id_char (hd (tl rho)))"
    and gt: "\<And>y. m (62 # y) = None"
    and here: "matches_at channel_named (60 # replace_all m (\<lambda>_. rho) cs)"
  shows "matches_at channel_named (60 # cs)"
proof -
  let ?R = "replace_all m (\<lambda>_. rho)"
  from here obtain ident name rest where i: "ident \<noteq> []" "\<forall>c\<in>set ident. is_id_char c"
    and nm: "name \<noteq> []" "62 \<notin> set name"
    and Rcs: "?R cs = 35 # ident @ 124 # name @ 62 # rest"
    unfolding channel_named_iff by auto
  obtain i0 ident' where ident: "ident = i0 # ident'" using i(1) by (cases ident) auto
  with i(2) have i0: "is_id_char i0" by simp
  have "\<exists>cs1. cs = 35 # cs1 \<and> ?R cs1 = (ident @ [124]) @ name @ 62 # rest"
  proof (cases cs)
    case Nil
    with Rcs nil show ?thesis by (simp add: replace_all_Nil)
  next
    case (Cons c1 cs1)
    show ?thesis
    proof (cases "m (c1 # cs1)")
      case (Some x)
      obtain n cap where x: "x = (n, cap)" by (cases x)
      with Some pos have "0 < n" by blast
      with Some x have "?R (c1 # cs1) = rho @ ?R (drop n (c1 # cs1))"
        by (simp only: replace_all_hit)
      with Rcs Cons have eq2: "rho @ ?R (drop n (c1 # cs1)) = 35 # i0 # ident' @ 124 # name @ 62 # rest"
        using ident by simp
      obtain r0 rho' where rho0: "rho = r0 # rho'" using rho(1) by (cases rho) auto
      with eq2 have "r0 = 35" by simp
      with rho(5) rho0 have "rho' \<noteq> []" "\<not> is_id_char (hd rho')" by simp_all
      then obtain r1 rho'' where "rho' = r1 # rho''" "\<not> is_id_char r1" by (cases rho') auto
      with eq2 rho0 have "r1 = i0" by simp
      with \<open>\<not> is_id_char r1\<close> i0 show ?thesis by simp
    next
      case None
      then have "?R (c1 # cs1) = c1 # ?R cs1" by (rule replace_all_copy)
      with Rcs Cons show ?thesis by simp
    qed
  qed
  then obtain cs1 where cs: "cs = 35 # cs1" and R1: "?R cs1 = (ident @ [124]) @ name @ 62 # rest"
    by blast
  have "hd rho \<notin> {c. is_id_char c \<or> c = 124}" using rho(3,4) by simp
  moreover have "set (ident @ [124]) \<subseteq> {c. is_id_char c \<or> c = 124}" using i(2) by auto
  ultimately have "\<exists>w'. cs1 = (ident @ [124]) @ w' \<and> ?R w' = name @ 62 # rest"
    using nil pos rho(1) R1
    by (intro replace_prefix_split [where m = m and rho = rho and A = "{c. is_id_char c \<or> c = 124}"])
  then obtain w' where cs1: "cs1 = (ident @ [124]) @ w'" and Rw: "?R w' = name @ 62 # rest"
    by blast
  have "set (?R w') \<subseteq> set w' \<union> set rho" using nil pos by (rule set_replace_all)
  moreover have "62 \<in> set (?R w')" unfolding Rw by simp
  ultimately have "62 \<in> set w'" using rho(2) by blast
  then obtain x0 y where w': "w' = x0 @ 62 # y" and x0: "62 \<notin> set x0"
    using split_at_first_gt by blast
  have "x0 \<noteq> []"
  proof
    assume "x0 = []"
    with w' have "?R w' = 62 # ?R y" by (simp add: replace_all_copy gt)
    with Rw have "name @ 62 # rest = 62 # ?R y" by simp
    with nm show False by (cases name) simp_all
  qed
  with i x0 cs cs1 w' show ?thesis unfolding channel_named_iff by auto
qed

lemma pass_keeps_named_clean:
  assumes nil: "m [] = None" and pos: "\<And>u n cap. m u = Some (n, cap) \<Longrightarrow> 0 < n"
    and rho: "rho \<noteq> []" "60 \<notin> set rho" "62 \<notin> set rho" "\<not> is_id_char (hd rho)" "hd rho \<noteq> 124"
      "hd rho \<noteq> 35 \<or> (tl rho \<noteq> [] \<and> \<not> is_id_char (hd (tl rho)))"
    and gt: "\<And>y. m (62 # y) = None"
    and clean: "\<not> has_match channel_named s"
  shows "\<not> has_match channel_named (replace_all m (\<lambda>_. rho) s)"
proof
  assume "has_match channel_named (replace_all m (\<lambda>_. rho) s)"
  then have "\<exists>pre u. s = pre @ u \<and> matches_at channel_named u \<and> m u = None"
    using nil pos channel_named_opens rho(2)
  proof (rule no_new_match [rotated -1])
    fix cs
    assume "matches_at channel_named (60 # replace_all m (\<lambda>_. rho) cs)"
    with nil pos rho(1,3,4,5,6) gt show "matches_at channel_named (60 # cs)"
      by (rule channel_named_reflect)
  qed
  then have "has_match channel_named s" unfolding has_match_iff by blast
  with clean show False by contradiction
qed

lemma link_pass_keeps_named_clean:
  assumes "m [] = None" "\<And>u n cap. m u = Some (n, cap) \<Longrightarrow> 0 < n" "\<And>y. m (62 # y) = None"
    and "\<not> has_match channel_named s"
  shows "\<not> has_match channel_named (replace_all m (\<lambda>_. js ''[link]'') s)"
  by (rule pass_keeps_named_clean [OF assms(1,2) _ _ _ _ _ _ assms(3,4)])
     (simp_all add: js_def is_id_char_def)

lemma link_pass_keeps_clean:
  assumes "m [] = None" "\<And>u n cap. m u = Some (n, cap) \<Longrightarrow> 0 < n"
    and "\<not> has_match (id_token d) s" "d \<noteq> 91"
  shows "\<not> has_match (id_token d) (replace_all m (\<lambda>_. js ''[link]'') s)"
proof
  assume "has_match (id_token d) (replace_all m (\<lambda>_. js ''[link]'') s)"
  then have "\<exists>pre u. s = pre @ u \<and> matches_at (id_token d) u \<and> m u = None"
    using assms(1,2,4)
    by (intro no_new_token [where m = m and rho = "js ''[link]''"])
       (simp_all add: js_def is_id_char_def)
  then have "has_match (id_token d) s" unfolding has_match_iff by blast
  with assms(3) show False by contradiction
qed

lemma trim_keeps_named_clean:
  assumes "\<not> has_match channel_named s"
  shows "\<not> has_match channel_named (trim s)"
proof
  assume "has_match channel_named (trim s)"
  then obtain pre u where pu: "trim s = pre @ u" "matches_at channel_named u"
    unfolding has_match_iff by blast
  obtain pre' post where "s = pre' @ trim s @ post" using trim_decompose by blast
  with pu(1) have "s = (pre' @ pre) @ (u @ post)" by simp
  moreover have "matches_at channel_named (u @ post)" using pu(2) by (rule channel_named_append)
  ultimately have "has_match channel_named s" unfolding has_match_iff by blast
  with assms show False by contradiction
qed

lemma channel_named_after:
  assumes "outside 60 b u" "channel_named u = Some (n, name)"
  shows "outside 60 False (drop n u) \<and> 60 \<notin> set (js ''#'' @ name)"
proof -
  from channel_named_Some [OF assms(2)] obtain ident rest where
    i: "\<forall>c\<in>set ident. is_id_char c" and nm: "62 \<notin> set name"
    and u: "u = 60 # 35 # ident @ 124 # name @ 62 # rest" and d: "drop n u = rest"
    by blast
  have "62 \<notin> set (35 # ident @ 124 # name)" using i nm by (auto simp: is_id_char_def)
  moreover have "outside 60 b (60 # (35 # ident @ 124 # name) @ 62 # rest)"
    using assms(1) u by simp
  ultimately have "60 \<notin> set (35 # ident @ 124 # name) \<and> outside 60 False rest"
    using outside_group by blast
  then show ?thesis using d by (simp add: js_def)
qed

lemma emoji_code_after:
  assumes "outside 58 b u" "emoji_code u = Some (n, cap)"
  shows "outside 58 False (drop n u) \<and> 60 \<notin> set ([] :: jsstring)"
proof -
  from emoji_code_Some [OF assms(2)] obtain body rest where
    i: "\<forall>c\<in>set body. is_emoji_char c" and u: "u = 58 # body @ 58 # rest"
    and d: "drop n u = rest"
    by blast
  have no: "58 \<notin> set body" "60 \<notin> set body" "62 \<notin> set body"
    using i by (auto simp: is_emoji_char_def)
  from assms(1) u have "outside 58 False (body @ 58 # rest)" by auto
  then have "outside 58 False (58 # rest)" using no by (simp add: outside_plain)
  then show ?thesis using d by simp
qed

lemma named_pass_reflects:
  assumes "\<And>u. matches_at T u \<Longrightarrow> \<exists>x rest. u = 60 # x @ 62 # rest \<and> 62 \<notin> set x"
    and "\<And>x rest rest'. 62 \<notin> set x \<Longrightarrow> matches_at T (60 # x @ 62 # rest) \<Longrightarrow>
           matches_at T (60 # x @ 62 # rest')"
    and "outside 60 b s"
    and "has_match T (replace_all channel_named (\<lambda>name. js ''#'' @ name) s)"
  shows "\<exists>pre u. s = pre @ u \<and> matches_at T u \<and> channel_named u = None"
proof (rule inside_pass_reflects [where m = channel_named and r = "\<lambda>name. js ''#'' @ name"
      and k = 60 and T = T and b = b])
  show "channel_named [] = None" by (rule channel_named_Nil)
  show "channel_named u = Some (n, cap) \<Longrightarrow> 0 < n" for u n cap by (rule channel_named_pos)
  show "c \<noteq> 60 \<Longrightarrow> channel_named (c # u) = None" for c u by (rule channel_named_at_60)
  show "(60 :: jschar) \<noteq> 62" by simp
  show "outside 60 b u \<Longrightarrow> channel_named u = Some (n, cap) \<Longrightarrow>
        outside 60 False (drop n u) \<and> 60 \<notin> set (js ''#'' @ cap)" for b u n cap
    by (rule channel_named_after)
  show "matches_at T u \<Longrightarrow> \<exists>x rest. u = 60 # x @ 62 # rest \<and> 62 \<notin> set x" for u
    by (rule assms(1))
  show "62 \<notin> set x \<Longrightarrow> matches_at T (60 # x @ 62 # rest) \<Longrightarrow>
        matches_at T (60 # x @ 62 # rest')" for x rest rest'
    by (rule assms(2))
  show "outside 60 b s" by (rule assms(3))
  show "has_match T (replace_all channel_named (\<lambda>name. js ''#'' @ name) s)" by (rule assms(4))
qed

lemma emoji_pass_reflects:
  assumes "\<And>u. matches_at T u \<Longrightarrow> \<exists>x rest. u = 60 # x @ 62 # rest \<and> 62 \<notin> set x"
    and "\<And>x rest rest'. 62 \<notin> set x \<Longrightarrow> matches_at T (60 # x @ 62 # rest) \<Longrightarrow>
           matches_at T (60 # x @ 62 # rest')"
    and "outside 58 b s"
    and "has_match T (replace_all emoji_code (\<lambda>_. []) s)"
  shows "has_match T s"
proof -
  have "\<exists>pre u. s = pre @ u \<and> matches_at T u \<and> emoji_code u = None"
  proof (rule inside_pass_reflects [where m = emoji_code and r = "\<lambda>_. []" and k = 58
        and T = T and b = b])
    show "emoji_code [] = None" by (rule emoji_code_Nil)
    show "emoji_code u = Some (n, cap) \<Longrightarrow> 0 < n" for u n cap by (rule emoji_code_pos)
    show "c \<noteq> 58 \<Longrightarrow> emoji_code (c # u) = None" for c u by (rule emoji_code_first)
    show "(58 :: jschar) \<noteq> 62" by simp
    show "outside 58 b u \<Longrightarrow> emoji_code u = Some (n, cap) \<Longrightarrow>
          outside 58 False (drop n u) \<and> 60 \<notin> set ([] :: jsstring)" for b u n cap
      by (rule emoji_code_after)
    show "matches_at T u \<Longrightarrow> \<exists>x rest. u = 60 # x @ 62 # rest \<and> 62 \<notin> set x" for u
      by (rule assms(1))
    show "62 \<notin> set x \<Longrightarrow> matches_at T (60 # x @ 62 # rest) \<Longrightarrow>
          matches_at T (60 # x @ 62 # rest')" for x rest rest'
      by (rule assms(2))
    show "outside 58 b s" by (rule assms(3))
    show "has_match T (replace_all emoji_code (\<lambda>_. []) s)" by (rule assms(4))
  qed
  then show ?thesis unfolding has_match_iff by blast
qed

lemma named_pass_clean:
  assumes "outside 60 b s"
  shows "\<not> has_match channel_named (replace_all channel_named (\<lambda>name. js ''#'' @ name) s)"
proof
  assume "has_match channel_named (replace_all channel_named (\<lambda>name. js ''#'' @ name) s)"
  with channel_named_bracket channel_named_rest assms
  have "\<exists>pre u. s = pre @ u \<and> matches_at channel_named u \<and> channel_named u = None"
    by (rule named_pass_reflects [where T = channel_named and b = b])
  then show False by (auto simp: matches_at_def)
qed

lemma named_pass_keeps_user_clean:
  assumes "outside 60 b s" "\<not> has_match user_mention s"
  shows "\<not> has_match user_mention (replace_all channel_named (\<lambda>name. js ''#'' @ name) s)"
proof
  assume "has_match user_mention (replace_all channel_named (\<lambda>name. js ''#'' @ name) s)"
  then have h: "has_match (id_token 64) (replace_all channel_named (\<lambda>name. js ''#'' @ name) s)"
    by (simp only: user_mention_id_token)
  have "\<exists>pre u. s = pre @ u \<and> matches_at (id_token 64) u \<and> channel_named u = None"
  proof (rule named_pass_reflects [where T = "id_token 64" and b = b])
    show "matches_at (id_token 64) u \<Longrightarrow> \<exists>x rest. u = 60 # x @ 62 # rest \<and> 62 \<notin> set x" for u
      by (rule id_token_bracket [where d = 64]) simp_all
    show "62 \<notin> set x \<Longrightarrow> matches_at (id_token 64) (60 # x @ 62 # rest) \<Longrightarrow>
          matches_at (id_token 64) (60 # x @ 62 # rest')" for x rest rest'
      by (rule id_token_rest [where d = 64]) simp_all
    show "outside 60 b s" by (rule assms(1))
    show "has_match (id_token 64) (replace_all channel_named (\<lambda>name. js ''#'' @ name) s)"
      by (rule h)
  qed
  then have "has_match (id_token 64) s" unfolding has_match_iff by blast
  with assms(2) show False by (simp add: user_mention_id_token)
qed

lemma emoji_pass_keeps_clean:
  assumes "outside 58 b s" "d \<noteq> 62" "\<not> has_match (id_token d) s"
  shows "\<not> has_match (id_token d) (replace_all emoji_code (\<lambda>_. []) s)"
proof
  assume h: "has_match (id_token d) (replace_all emoji_code (\<lambda>_. []) s)"
  have "has_match (id_token d) s"
  proof (rule emoji_pass_reflects [where T = "id_token d" and b = b])
    show "matches_at (id_token d) u \<Longrightarrow> \<exists>x rest. u = 60 # x @ 62 # rest \<and> 62 \<notin> set x" for u
      using assms(2) by (rule id_token_bracket [rotated])
    show "62 \<notin> set x \<Longrightarrow> matches_at (id_token d) (60 # x @ 62 # rest) \<Longrightarrow>
          matches_at (id_token d) (60 # x @ 62 # rest')" for x rest rest'
      using assms(2) by (rule id_token_rest [rotated -1])
    show "outside 58 b s" by (rule assms(1))
    show "has_match (id_token d) (replace_all emoji_code (\<lambda>_. []) s)" by (rule h)
  qed
  with assms(3) show False by contradiction
qed

lemma emoji_pass_keeps_named_clean:
  assumes "outside 58 b s" "\<not> has_match channel_named s"
  shows "\<not> has_match channel_named (replace_all emoji_code (\<lambda>_. []) s)"
proof
  assume "has_match channel_named (replace_all emoji_code (\<lambda>_. []) s)"
  with channel_named_bracket channel_named_rest assms(1)
  have "has_match channel_named s"
    by (rule emoji_pass_reflects [where T = channel_named and b = b])
  with assms(2) show False by contradiction
qed

text \<open>
  No markup is left when the passes do not interfere: the brackets of the input are not
  nested (or it has no vertical bar), the colons left by the first five passes are
  outside the brackets, and the emoji pass leaves no colon.
\<close>

lemma markup_free_when_independent:
  assumes "outside 60 False s \<or> 124 \<notin> set s" "outside 58 False (links_rewritten s)"
    "58 \<notin> set (emoji_removed s)"
  shows "markup_free (normalize_text s)"
proof -
  let ?s1 = "replace_all user_mention (\<lambda>_. js ''@user'') s"
  let ?s2 = "replace_all channel_named (\<lambda>name. js ''#'' @ name) ?s1"
  let ?s3 = "replace_all channel_plain (\<lambda>_. js ''#channel'') ?s2"
  let ?s4 = "replace_all angle_url (\<lambda>_. js ''[link]'') ?s3"
  let ?s5 = "replace_all bare_url (\<lambda>_. js ''[link]'') ?s4"
  let ?s6 = "replace_all emoji_code (\<lambda>_. []) ?s5"
  let ?s7 = "replace_all space_run (\<lambda>_. js '' '') ?s6"
  have l: "links_rewritten s = ?s5" by (simp add: links_rewritten_def Let_def)
  then have e: "emoji_removed s = ?s6" by (simp add: emoji_removed_def)
  from assms(2) l have out5: "outside 58 False ?s5" by simp
  from assms(3) e have colon6: "58 \<notin> set ?s6" by simp
  have "set ?s7 \<subseteq> set ?s6 \<union> set (js '' '')"
    by (rule set_replace_all) (simp_all add: space_run_Nil space_run_pos)
  moreover have "set (trim ?s7) \<subseteq> set ?s7" by (rule set_trim)
  ultimately have colon8: "58 \<notin> set (trim ?s7)" using colon6 by (auto simp: js_def)
  have n: "normalize_text s = trim ?s7"
    by (simp add: normalize_text_emoji_removed e)
  have clean2: "\<not> has_match user_mention ?s2 \<and> \<not> has_match channel_named ?s2"
    using assms(1)
  proof
    assume "outside 60 False s"
    then have "outside 60 False ?s1" by (rule user_pass_outside)
    then show ?thesis using user_pass_clean named_pass_clean named_pass_keeps_user_clean by blast
  next
    assume bar: "124 \<notin> set s"
    have "set ?s1 \<subseteq> set s \<union> set (js ''@user'')"
      by (rule set_replace_all) (simp_all add: user_mention_id_token id_token_Nil id_token_pos)
    with bar have bar1: "124 \<notin> set ?s1" by (auto simp: js_def)
    have none: "\<not> has_match channel_named ?s1"
      by (rule not_has_match_without [OF channel_named_needs_bar bar1])
    then have "?s2 = ?s1" by (rule replace_all_no_match)
    with none user_pass_clean show ?thesis by simp
  qed
  then have "\<not> has_match user_mention ?s3" by (intro plain_pass_keeps_user_clean) simp
  then have "\<not> has_match (id_token 64) ?s5"
    unfolding user_mention_id_token
    by (intro link_pass_keeps_clean) (simp_all add: angle_url_Nil angle_url_pos bare_url_Nil bare_url_pos)
  with out5 have "\<not> has_match (id_token 64) ?s6" by (intro emoji_pass_keeps_clean) simp_all
  then have user: "\<not> has_match user_mention (trim ?s7)"
    unfolding user_mention_id_token by (intro trim_keeps_clean collapse_keeps_clean) simp_all
  have "\<not> has_match (id_token 35) ?s5"
    using plain_pass_clean [of ?s2] unfolding channel_plain_id_token
    by (intro link_pass_keeps_clean) (simp_all add: angle_url_Nil angle_url_pos bare_url_Nil bare_url_pos)
  with out5 have "\<not> has_match (id_token 35) ?s6" by (intro emoji_pass_keeps_clean) simp_all
  then have plain: "\<not> has_match channel_plain (trim ?s7)"
    unfolding channel_plain_id_token
    by (intro trim_keeps_clean collapse_keeps_clean) simp_all
  have "\<not> has_match channel_named (replace_all (id_token 35) (\<lambda>_. js ''#channel'') ?s2)"
  proof (rule pass_keeps_named_clean)
    show "id_token 35 [] = None" by (rule id_token_Nil)
    show "id_token 35 u = Some (n, cap) \<Longrightarrow> 0 < n" for u n cap by (rule id_token_pos)
    show "id_token 35 (62 # y) = None" for y by (simp add: id_token_gt)
    show "\<not> has_match channel_named ?s2" using clean2 by simp
  qed (simp_all add: js_def is_id_char_def)
  then have named3: "\<not> has_match channel_named ?s3" unfolding channel_plain_id_token .
  have named4: "\<not> has_match channel_named ?s4"
  proof (rule link_pass_keeps_named_clean)
    show "angle_url u = Some (n, cap) \<Longrightarrow> 0 < n" for u n cap by (rule angle_url_pos)
  qed (simp_all add: angle_url_Nil angle_url_gt named3)
  have named5: "\<not> has_match channel_named ?s5"
  proof (rule link_pass_keeps_named_clean)
    show "bare_url u = Some (n, cap) \<Longrightarrow> 0 < n" for u n cap by (rule bare_url_pos)
  qed (simp_all add: bare_url_Nil bare_url_gt named4)
  have named6: "\<not> has_match channel_named ?s6"
    using out5 named5 by (rule emoji_pass_keeps_named_clean)
  have "\<not> has_match channel_named ?s7"
  proof (rule pass_keeps_named_clean)
    show "space_run u = Some (n, cap) \<Longrightarrow> 0 < n" for u n cap by (rule space_run_pos)
    show "\<not> has_match channel_named ?s6" by (rule named6)
  qed (simp_all add: space_run_Nil space_run_gt js_def is_id_char_def)
  then have named: "\<not> has_match channel_named (trim ?s7)" by (rule trim_keeps_named_clean)
  have angle: "\<not> has_match angle_url (trim ?s7)"
    by (rule not_has_match_without [OF angle_url_needs_colon colon8])
  have bare: "\<not> has_match bare_url (trim ?s7)"
    by (rule not_has_match_without [OF bare_url_needs_colon colon8])
  have emoji: "\<not> has_match emoji_code (trim ?s7)"
    by (rule not_has_match_without [OF emoji_code_needs_colon colon8])
  show ?thesis unfolding n markup_free_def using user plain named angle bare emoji by blast
qed

lemma preprocessText_fixed:
  assumes "markup_free (preprocessText s)"
  shows "preprocessText (preprocessText s) = preprocessText s"
proof -
  let ?t = "preprocessText s"
  from assms have m: "\<not> has_match user_mention ?t" "\<not> has_match channel_named ?t"
    "\<not> has_match channel_plain ?t" "\<not> has_match angle_url ?t" "\<not> has_match bare_url ?t"
    "\<not> has_match emoji_code ?t"
    by (simp_all add: markup_free_def)
  have ws: "no_space_run ?t" "\<forall>c\<in>set ?t. is_space c \<longrightarrow> c = 32"
    "?t = [] \<or> (\<not> is_space (hd ?t) \<and> \<not> is_space (last ?t))"
    using preprocessText_cases [of s] normalize_text_whitespace [of s] by auto
  have len: "?t = [] \<or> 10 \<le> length ?t"
    using preprocessText_cases [of s] by auto
  have "normalize_text ?t = trim (replace_all space_run (\<lambda>_. js '' '') ?t)"
    by (simp add: normalize_text_def Let_def replace_all_no_match m)
  also have "\<dots> = trim ?t" using ws(1,2) by (simp only: collapse_fixed)
  also have "\<dots> = ?t" using ws(3) by (rule trim_fixed)
  finally have "normalize_text ?t = ?t" .
  then show ?thesis using len by (auto simp: preprocessText_def MIN_LENGTH_def Let_def)
qed




text \<open>
  Claim C9, as amended: \<open>preprocessText(preprocessText(s))\<close> equals
  \<open>preprocessText(s)\<close> whenever \<open>preprocessText(s)\<close> contains no match of the six
  markup patterns; in particular for every \<open>s\<close> on which the passes do not interfere (no
  \<open><\<close> of \<open>s\<close> between a \<open><\<close> and the next \<open>>\<close>, or no vertical bar in \<open>s\<close>; no colon
  between a \<open><\<close> and the next \<open>>\<close> after the mentions and the links are rewritten; no
  colon left after the emoji codes are removed), and for every \<open>s\<close> that is too short
  after normalization (the empty result).
\<close>

theorem preprocessText_idempotent_when_clean:
  "(markup_free (preprocessText s) \<longrightarrow>
      preprocessText (preprocessText s) = preprocessText s) \<and>
   ((outside 60 False s \<or> 124 \<notin> set s) \<and> outside 58 False (links_rewritten s) \<and>
    58 \<notin> set (emoji_removed s) \<longrightarrow>
      preprocessText (preprocessText s) = preprocessText s) \<and>
   (length (normalize_text s) < 10 \<longrightarrow>
      preprocessText (preprocessText s) = preprocessText s)"
proof (intro conjI impI)
  assume "markup_free (preprocessText s)"
  then show "preprocessText (preprocessText s) = preprocessText s"
    by (rule preprocessText_fixed)
next
  assume "(outside 60 False s \<or> 124 \<notin> set s) \<and> outside 58 False (links_rewritten s) \<and>
    58 \<notin> set (emoji_removed s)"
  then have "markup_free (normalize_text s)"
    by (intro markup_free_when_independent) simp_all
  then have "markup_free (preprocessText s)"
    using preprocessText_cases [of s] markup_free_Nil by auto
  then show "preprocessText (preprocessText s) = preprocessText s"
    by (rule preprocessText_fixed)
next
  assume "length (normalize_text s) < 10"
  then have "preprocessText s = []" by (simp add: preprocessText_def MIN_LENGTH_def)
  then have "markup_free (preprocessText s)" by (simp add: markup_free_Nil)
  then show "preprocessText (preprocessText s) = preprocessText s"
    by (rule preprocessText_fixed)
qed

theorem preprocessText_idempotent_when_clean_witness:
  "outside 60 False (js ''hello   <@U123ABC> see :smile: http://x.y '') \<and>
   links_rewritten (js ''hello   <@U123ABC> see :smile: http://x.y '') =
     js ''hello   @user see :smile: [link] '' \<and>
   outside 58 False (js ''hello   @user see :smile: [link] '') \<and>
   emoji_removed (js ''hello   <@U123ABC> see :smile: http://x.y '') =
     js ''hello   @user see  [link] '' \<and>
   58 \<notin> set (js ''hello   @user see  [link] '') \<and>
   preprocessText (js ''hello   <@U123ABC> see :smile: http://x.y '') =
     js ''hello @user see [link]'' \<and>
   markup_free (js ''hello @user see [link]'') \<and>
   preprocessText (js ''hello @user see [link]'') = js ''hello @user see [link]'' \<and>
   length (normalize_text (js ''hi <@U1>'')) < 10 \<and>
   preprocessText (preprocessText (js ''hi <@U1>'')) = preprocessText (js ''hi <@U1>'')"
proof -
  let ?s = "js ''hello   <@U123ABC> see :smile: http://x.y ''"
  let ?t = "js ''hello @user see [link]''"
  have a: "outside 60 False ?s" by (simp add: js_def)
  have l: "links_rewritten ?s = js ''hello   @user see :smile: [link] ''"
    by (simp add: links_rewritten_def match_defs)
  have b: "outside 58 False (js ''hello   @user see :smile: [link] '')" by (simp add: js_def)
  have r: "emoji_removed ?s = js ''hello   @user see  [link] ''"
    unfolding emoji_removed_def l by (simp add: match_defs)
  have c: "58 \<notin> set (js ''hello   @user see  [link] '')" by (simp add: js_def)
  have e: "preprocessText ?s = ?t" by (simp add: match_defs)
  have f: "markup_free ?t" by (simp add: match_defs)
  have n: "length (normalize_text (js ''hi <@U1>'')) < 10" by (simp add: match_defs)
  from preprocessText_idempotent_when_clean [of ?s] a b c l r
  have "preprocessText (preprocessText ?s) = preprocessText ?s" by simp
  then have "preprocessText ?t = ?t" unfolding e .
  with a b c l r e f n preprocessText_idempotent_when_clean [of "js ''hi <@U1>''"]
  show ?thesis by blast
qed

text \<open>
  Claim C9 as stated fails: a second application can rewrite markup that the first one
  produced.
\<close>

theorem preprocessText_not_idempotent:
  "preprocessText (js ''<#C1|<@>U1234567>'') = js ''#<@U1234567>'' \<and>
   preprocessText (js ''#<@U1234567>'') = [] \<and>
   preprocessText (preprocessText (js ''::a:b:: hello world'')) = js '': hello world'' \<and>
   preprocessText (js ''::a:b:: hello world'') = js '':b:: hello world''"
  by (simp add: match_defs)

end
